theory Spec2Isabelle
  imports Main "HOL-Library.Product_Lexorder" "HOL-Library.Sublist"
begin

section \<open>Errors\<close>

text \<open>
  The exceptions that can leave the modelled functions: \<open>OverflowError\<close> from date
  arithmetic that leaves the years 1..9999, \<open>ValueError\<close> from \<open>datetime.replace\<close>
  with a year out of range (inside \<open>relativedelta\<close>), and the scheduler's
  \<open>ConflictingIdError\<close>.
\<close>

datatype error = OverflowError | ValueError | ConflictingIdError

section \<open>Python's \<open>date\<close>, \<open>datetime\<close> and \<open>timedelta\<close>\<close>

text \<open>
  \<open>datetime\<close> is a subclass of \<open>date\<close>; the record extension mirrors this. Only the
  naive wall-clock fields are kept: every datetime the modelled code compares has had
  its \<open>tzinfo\<close> replaced by \<open>None\<close> first, and \<open>.date()\<close> only reads these fields.
\<close>

record date =
  year :: int
  month :: int
  day :: int

record datetime = date +
  hour :: int
  minute :: int
  second :: int
  microsecond :: int

definition is_leap :: "int \<Rightarrow> bool" where
  "is_leap y = (y mod 4 = 0 \<and> (y mod 100 \<noteq> 0 \<or> y mod 400 = 0))"

definition days_in_month :: "int \<Rightarrow> int \<Rightarrow> int" where
  "days_in_month y m =
     (if m = 2 then (if is_leap y then 29 else 28)
      else if m = 4 \<or> m = 6 \<or> m = 9 \<or> m = 11 then 30 else 31)"

definition days_before_year :: "int \<Rightarrow> int" where
  "days_before_year y = (y - 1) * 365 + (y - 1) div 4 - (y - 1) div 100 + (y - 1) div 400"

definition days_before_month :: "int \<Rightarrow> int \<Rightarrow> int" where
  "days_before_month y m =
     [0, 0, 31, 59, 90, 120, 151, 181, 212, 243, 273, 304, 334] ! nat m
       + (if 2 < m \<and> is_leap y then 1 else 0)"

definition toordinal :: "'a date_scheme \<Rightarrow> int" where
  "toordinal d = days_before_year (year d) + days_before_month (year d) (month d) + day d"

definition valid_date :: "'a date_scheme \<Rightarrow> bool" where
  "valid_date d = (1 \<le> year d \<and> year d \<le> 9999 \<and> 1 \<le> month d \<and> month d \<le> 12
     \<and> 1 \<le> day d \<and> day d \<le> days_in_month (year d) (month d))"

definition valid_time :: "'a datetime_scheme \<Rightarrow> bool" where
  "valid_time d = (0 \<le> hour d \<and> hour d < 24 \<and> 0 \<le> minute d \<and> minute d < 60
     \<and> 0 \<le> second d \<and> second d < 60 \<and> 0 \<le> microsecond d \<and> microsecond d < 1000000)"

definition valid_datetime :: "'a datetime_scheme \<Rightarrow> bool" where
  "valid_datetime d = (valid_date d \<and> valid_time d)"

text \<open>Comparison of dates and of naive datetimes is lexicographic on the fields.\<close>

definition date_key :: "'a date_scheme \<Rightarrow> int \<times> int \<times> int" where
  "date_key d = (year d, month d, day d)"

definition dt_key :: "'a datetime_scheme \<Rightarrow> int \<times> int \<times> int \<times> int \<times> int \<times> int \<times> int" where
  "dt_key d = (year d, month d, day d, hour d, minute d, second d, microsecond d)"

text \<open>
  The calendar successor and predecessor of a date. Python computes \<open>d + timedelta(days=n)\<close>
  as \<open>fromordinal(d.toordinal() + n)\<close>; stepping the calendar \<open>n\<close> times is the same date
  (lemma \<open>toordinal_next_day\<close> below ties the two together).
\<close>

definition next_day :: "'a date_scheme \<Rightarrow> 'a date_scheme" where
  "next_day d =
     (if day d < days_in_month (year d) (month d) then d\<lparr>day := day d + 1\<rparr>
      else if month d < 12 then d\<lparr>month := month d + 1, day := 1\<rparr>
      else d\<lparr>year := year d + 1, month := 1, day := 1\<rparr>)"

definition prev_day :: "'a date_scheme \<Rightarrow> 'a date_scheme" where
  "prev_day d =
     (if 1 < day d then d\<lparr>day := day d - 1\<rparr>
      else if 1 < month d then d\<lparr>month := month d - 1, day := days_in_month (year d) (month d - 1)\<rparr>
      else d\<lparr>year := year d - 1, month := 12, day := 31\<rparr>)"

definition shift_days :: "int \<Rightarrow> 'a date_scheme \<Rightarrow> 'a date_scheme" where
  "shift_days n d = (if 0 \<le> n then (next_day ^^ nat n) d else (prev_day ^^ nat (- n)) d)"

text \<open>A normalised \<open>timedelta\<close>: whole days and seconds (no use in the code has microseconds).\<close>

datatype timedelta = Timedelta (days: int) (seconds: int)

text \<open>The constructor calls the code makes: \<open>timedelta(days=n)\<close>, \<open>weeks\<close>, \<open>minutes\<close>.\<close>

definition timedelta_days :: "int \<Rightarrow> timedelta" where
  "timedelta_days n = Timedelta n 0"

definition timedelta_weeks :: "int \<Rightarrow> timedelta" where
  "timedelta_weeks n = Timedelta (7 * n) 0"

definition timedelta_minutes :: "int \<Rightarrow> timedelta" where
  "timedelta_minutes n = Timedelta (n * 60 div 86400) (n * 60 mod 86400)"

text \<open>
  \<open>datetime.__add__\<close>: the seconds of the day and the delta's seconds are added, the
  carry goes to the days, and a result outside the years 1..9999 raises OverflowError.
\<close>

definition plus_timedelta :: "datetime \<Rightarrow> timedelta \<Rightarrow> error + datetime" where
  "plus_timedelta d td =
     (let secs = hour d * 3600 + minute d * 60 + second d + seconds td;
          d' = shift_days (days td + secs div 86400) d;
          rem = secs mod 86400
      in if year d' < 1 \<or> 9999 < year d' then Inl OverflowError
         else Inr (d'\<lparr>hour := rem div 3600, minute := rem mod 3600 div 60, second := rem mod 60\<rparr>))"

definition minus_timedelta :: "datetime \<Rightarrow> timedelta \<Rightarrow> error + datetime" where
  "minus_timedelta d td = plus_timedelta d (Timedelta (- days td) (- seconds td))"

text \<open>
  \<open>dt + relativedelta(months=1)\<close> of dateutil: the month is advanced, the day is clamped
  to the length of the new month, and \<open>dt.replace\<close> raises ValueError for the year 10000.
\<close>

definition plus_one_month :: "datetime \<Rightarrow> error + datetime" where
  "plus_one_month d =
     (let y = (if 12 < month d + 1 then year d + 1 else year d);
          m = (if 12 < month d + 1 then month d + 1 - 12 else month d + 1);
          dd = min (days_in_month y m) (day d)
      in if 9999 < y then Inl ValueError else Inr (d\<lparr>year := y, month := m, day := dd\<rparr>))"

section \<open>Strings\<close>

fun str_nat :: "nat \<Rightarrow> string" where
  "str_nat n = (if n < 10 then [''0123456789'' ! n]
                else str_nat (n div 10) @ [''0123456789'' ! (n mod 10)])"

declare str_nat.simps [simp del]

definition str_int :: "int \<Rightarrow> string" where
  "str_int i = (if i < 0 then CHR ''-'' # str_nat (nat (- i)) else str_nat (nat i))"

definition zero_pad :: "nat \<Rightarrow> string \<Rightarrow> string" where
  "zero_pad w s = replicate (w - length s) CHR ''0'' @ s"

text \<open>\<open>datetime.isoformat()\<close> of a naive datetime.\<close>

definition isoformat :: "datetime \<Rightarrow> string" where
  "isoformat d =
     zero_pad 4 (str_int (year d)) @ ''-'' @ zero_pad 2 (str_int (month d)) @ ''-''
       @ zero_pad 2 (str_int (day d)) @ ''T'' @ zero_pad 2 (str_int (hour d)) @ '':''
       @ zero_pad 2 (str_int (minute d)) @ '':'' @ zero_pad 2 (str_int (second d))
       @ (if microsecond d \<noteq> 0 then ''.'' @ zero_pad 6 (str_int (microsecond d)) else '''')"

section \<open>The platform: library behaviour the repository relies on\<close>

text \<open>
  What the standard library and the deployment decide is a parameter of the model:
  the syntax \<open>datetime.fromisoformat\<close> accepts (it differs between Python versions),
  \<open>strftime("%Y-%m-%d %I:%M %p")\<close>, \<open>int(dt.timestamp())\<close> (it depends on the local time
  zone), \<open>str.title\<close>, and the table \<open>USER_ID_MAP\<close>, whose entries are placeholders in
  the source.
\<close>

record platform =
  iso_fields :: "string \<Rightarrow> datetime option"
  strftime_12h :: "datetime \<Rightarrow> string"
  timestamp :: "datetime \<Rightarrow> int"
  title :: "string \<Rightarrow> string"
  USER_ID_MAP :: "string \<rightharpoonup> int"

text \<open>
  \<open>datetime.fromisoformat\<close>: \<open>None\<close> stands for the ValueError. The constructor checks
  the fields, so a datetime that is returned is always a valid one.
\<close>

definition fromisoformat :: "platform \<Rightarrow> string \<Rightarrow> datetime option" where
  "fromisoformat P s =
     (case iso_fields P s of None \<Rightarrow> None
      | Some d \<Rightarrow> if valid_datetime d then Some d else None)"

section \<open>Items\<close>

text \<open>
  A row of the \<open>tasks\<close> table as \<open>database.fetch_items\<close> returns it. The database id is
  an integer; a recurring instance carries a string id. The last two fields are the
  keys \<open>generate_recurring_instances\<close> adds to its copies (\<open>None\<close>: key absent).
\<close>

datatype ident = IntId int | StrId string

fun str_ident :: "ident \<Rightarrow> string" where
  "str_ident (IntId n) = str_int n"
| "str_ident (StrId s) = s"

record item =
  item_id :: ident
  item_type :: string
  name :: string
  due_date :: string
  status :: string
  mention :: string
  repeat_interval :: string
  category :: string
  item_notes :: string
  priority :: string
  color :: string
  is_recurring_instance :: "bool option"
  original_id :: "ident option"

section \<open>Recurrence expansion: \<open>generate_recurring_instances\<close>\<close>

text \<open>The block "Calculate next occurrence"; \<open>None\<close> is the \<open>break\<close> of the last branch.\<close>

definition next_occurrence :: "string \<Rightarrow> datetime \<Rightarrow> (error + datetime) option" where
  "next_occurrence rep current_date =
     (if rep = ''daily'' then Some (plus_timedelta current_date (timedelta_days 1))
      else if rep = ''weekly'' then Some (plus_timedelta current_date (timedelta_weeks 1))
      else if rep = ''monthly'' then Some (plus_one_month current_date)
      else None)"

definition make_instance :: "item \<Rightarrow> datetime \<Rightarrow> int \<Rightarrow> item" where
  "make_instance it current_date instance_count =
     it\<lparr>due_date := isoformat current_date,
        item_id := (if 0 < instance_count
                    then StrId (str_ident (item_id it) @ ''_recur_'' @ str_int instance_count)
                    else item_id it),
        is_recurring_instance := Some (0 < instance_count),
        original_id := Some (item_id it)\<rparr>"

definition max_instances :: int where
  "max_instances = 100"

function recur_loop ::
  "item \<Rightarrow> datetime \<Rightarrow> datetime \<Rightarrow> datetime \<Rightarrow> int \<Rightarrow> item list \<Rightarrow> error + item list" where
  "recur_loop it start_date end_date current_date instance_count instances =
     (if dt_key current_date \<le> dt_key end_date \<and> instance_count < max_instances then
        (let instances' =
               (if dt_key start_date \<le> dt_key current_date
                then instances @ [make_instance it current_date instance_count]
                else instances)
         in case next_occurrence (repeat_interval it) current_date of
              None \<Rightarrow> Inr instances'
            | Some (Inl e) \<Rightarrow> Inl e
            | Some (Inr nxt) \<Rightarrow>
                recur_loop it start_date end_date nxt (instance_count + 1) instances')
      else Inr instances)"
  by pat_completeness auto
termination
  by (relation "measure (\<lambda>(it, s, e, c, n, acc). nat (max_instances - n))") auto

declare recur_loop.simps [simp del]

text \<open>
  The window bounds are optional; a missing bound is taken from the clock \<open>now\<close>
  (180 days back, 730 days ahead).
\<close>

definition default_start_date :: "datetime \<Rightarrow> datetime option \<Rightarrow> error + datetime" where
  "default_start_date now start_date =
     (case start_date of None \<Rightarrow> minus_timedelta now (timedelta_days 180) | Some s \<Rightarrow> Inr s)"

definition default_end_date :: "datetime \<Rightarrow> datetime option \<Rightarrow> error + datetime" where
  "default_end_date now end_date =
     (case end_date of None \<Rightarrow> plus_timedelta now (timedelta_days 730) | Some e \<Rightarrow> Inr e)"

definition generate_recurring_instances ::
  "platform \<Rightarrow> datetime \<Rightarrow> item \<Rightarrow> datetime option \<Rightarrow> datetime option \<Rightarrow> error + item list" where
  "generate_recurring_instances P now it start_date end_date =
     (if repeat_interval it = ''none'' then Inr [it]
      else
        case default_start_date now start_date of
          Inl e \<Rightarrow> Inl e
        | Inr start_date' \<Rightarrow>
           (case default_end_date now end_date of
              Inl e \<Rightarrow> Inl e
            | Inr end_date' \<Rightarrow>
               (case fromisoformat P (due_date it) of
                  None \<Rightarrow> Inr [it]
                | Some original_date \<Rightarrow> recur_loop it start_date' end_date' original_date 0 [])))"

section \<open>Daily digest: the bucketing and the embed of \<open>send_daily_update\<close>\<close>

text \<open>
  Python slices and measures strings in code points, a \<open>string\<close> here is the UTF-8
  bytes: \<open>text[:n]\<close> keeps the first \<open>n\<close> code points, each a lead byte followed by its
  continuation bytes (\<open>0x80\<close> to \<open>0xBF\<close>).
\<close>

definition is_continuation :: "char \<Rightarrow> bool" where
  "is_continuation c = (128 \<le> (of_char c :: nat) \<and> (of_char c :: nat) < 192)"

fun slice_to :: "nat \<Rightarrow> string \<Rightarrow> string" where
  "slice_to n [] = []"
| "slice_to n (c # cs) =
     (if is_continuation c then c # slice_to n cs
      else (case n of 0 \<Rightarrow> [] | Suc k \<Rightarrow> c # slice_to k cs))"

definition format_time_12hour :: "platform \<Rightarrow> string \<Rightarrow> string" where
  "format_time_12hour P datetime_str =
     (case fromisoformat P datetime_str of
        Some dt \<Rightarrow> strftime_12h P dt
      | None \<Rightarrow> datetime_str)"

text \<open>The three lists one of the two bucketing loops fills.\<close>

record buckets =
  overdue :: "item list"
  today_items :: "item list"
  upcoming :: "item list"

text \<open>
  The loop over \<open>pending_tasks\<close>; the loop over \<open>pending_events\<close> is the same code.
  The bare \<open>except\<close> puts an item whose date does not parse into \<open>upcoming\<close>; an item
  due more than 7 days ahead is appended to no list.
\<close>

fun bucket_loop :: "platform \<Rightarrow> datetime \<Rightarrow> item list \<Rightarrow> buckets \<Rightarrow> buckets" where
  "bucket_loop P today [] b = b"
| "bucket_loop P today (task # rest) b =
     bucket_loop P today rest
       (case fromisoformat P (due_date task) of
          None \<Rightarrow> b\<lparr>upcoming := upcoming b @ [task]\<rparr>
        | Some due \<Rightarrow>
            if date_key due < date_key today then b\<lparr>overdue := overdue b @ [task]\<rparr>
            else if date_key due = date_key today then b\<lparr>today_items := today_items b @ [task]\<rparr>
            else if toordinal due - toordinal today \<le> 7 then b\<lparr>upcoming := upcoming b @ [task]\<rparr>
            else b)"

definition pending_of_type :: "string \<Rightarrow> item list \<Rightarrow> item list" where
  "pending_of_type ty items = filter (\<lambda>item. item_type item = ty \<and> status item = ''pending'') items"

definition bucket_pending :: "platform \<Rightarrow> datetime \<Rightarrow> item list \<Rightarrow> buckets" where
  "bucket_pending P today pending =
     bucket_loop P today pending \<lparr>overdue = [], today_items = [], upcoming = []\<rparr>"

text \<open>The lines of the embed. The emoji are written as their UTF-8 bytes.\<close>

definition red_circle :: string where
  "red_circle = [CHR 0xF0, CHR 0x9F, CHR 0x94, CHR 0xB4]"

definition yellow_circle :: string where
  "yellow_circle = [CHR 0xF0, CHR 0x9F, CHR 0x9F, CHR 0xA1]"

definition green_circle :: string where
  "green_circle = [CHR 0xF0, CHR 0x9F, CHR 0x9F, CHR 0xA2]"

definition newline :: string where
  "newline = [CHR 0x0A]"

definition dated_line :: "platform \<Rightarrow> string \<Rightarrow> item \<Rightarrow> string" where
  "dated_line P marker task =
     marker @ '' **'' @ name task @ ''** (ID: '' @ str_ident (item_id task) @ '') - Due: ''
       @ format_time_12hour P (due_date task) @ '' - Priority: '' @ priority task @ newline"

definition today_line :: "item \<Rightarrow> string" where
  "today_line task =
     yellow_circle @ '' **'' @ name task @ ''** (ID: '' @ str_ident (item_id task)
       @ '') - Priority: '' @ priority task @ newline"

text \<open>
  \<open>for task in tasks[:5]: text += line(task)\<close> followed by the same loop over the events.
\<close>

definition bucket_text :: "(item \<Rightarrow> string) \<Rightarrow> item list \<Rightarrow> item list \<Rightarrow> string" where
  "bucket_text line tasks events =
     foldl (\<lambda>text event. text @ line event)
       (foldl (\<lambda>text task. text @ line task) [] (take 5 tasks)) (take 5 events)"

record embed_field =
  field_name :: string
  field_value :: string
  inline :: bool

definition bucket_field ::
  "string \<Rightarrow> (item \<Rightarrow> string) \<Rightarrow> item list \<Rightarrow> item list \<Rightarrow> embed_field list" where
  "bucket_field title_text line tasks events =
     (if tasks \<noteq> [] \<or> events \<noteq> [] then
        (let text = bucket_text line tasks events
         in if text \<noteq> [] then
              [\<lparr>field_name = title_text, field_value = slice_to 1024 text, inline = False\<rparr>]
            else [])
      else [])"

definition overdue_title :: string where
  "overdue_title = [CHR 0xE2, CHR 0x9A, CHR 0xA0, CHR 0xEF, CHR 0xB8, CHR 0x8F] @ '' OVERDUE''"

definition today_title :: string where
  "today_title = [CHR 0xF0, CHR 0x9F, CHR 0x93, CHR 0x85] @ '' DUE TODAY''"

definition upcoming_title :: string where
  "upcoming_title = [CHR 0xF0, CHR 0x9F, CHR 0x93, CHR 0x88] @ '' UPCOMING (Next 7 Days)''"

definition summary_title :: string where
  "summary_title = [CHR 0xF0, CHR 0x9F, CHR 0x93, CHR 0x8A] @ '' Summary''"

text \<open>
  The fields \<open>send_daily_update\<close> adds to the embed, in order, from the items the
  database returned and the clock \<open>today\<close>. The title, description and footer of the
  embed are decoration that does not depend on the items.
\<close>

definition daily_update_fields :: "platform \<Rightarrow> datetime \<Rightarrow> item list \<Rightarrow> embed_field list" where
  "daily_update_fields P today items =
     (let pending_tasks = pending_of_type ''task'' items;
          pending_events = pending_of_type ''event'' items;
          tasks = bucket_pending P today pending_tasks;
          events = bucket_pending P today pending_events;
          total_pending = int (length pending_tasks) + int (length pending_events);
          total_overdue = int (length (overdue tasks)) + int (length (overdue events))
      in bucket_field overdue_title (dated_line P red_circle) (overdue tasks) (overdue events)
         @ bucket_field today_title today_line (today_items tasks) (today_items events)
         @ bucket_field upcoming_title (dated_line P green_circle) (upcoming tasks) (upcoming events)
         @ [\<lparr>field_name = summary_title,
              field_value = ''Total Pending: '' @ str_int total_pending @ newline
                @ ''Overdue: '' @ str_int total_overdue @ newline
                @ ''Due Today: ''
                @ str_int (int (length (today_items tasks)) + int (length (today_items events))),
              inline = True\<rparr>])"

section \<open>The scheduler and \<open>schedule_reminders_and_updates\<close>\<close>

text \<open>
  The job store of APScheduler: at most one job per id. A job is its trigger and what it
  runs; a reminder job has captured its message when it was created.
\<close>

datatype trigger = DateTrigger datetime | CronTrigger int int

datatype job_func = SendReminder string | DailyUpdate

record job =
  trigger :: trigger
  func :: job_func

record scheduler =
  jobs :: "string \<rightharpoonup> job"
  running :: bool

text \<open>
  \<open>scheduler.add_job(..., id=job_id, replace_existing=...)\<close>: a second job under an id
  in use raises ConflictingIdError unless it may replace the first. (A scheduler that is
  not running yet raises the same error from \<open>start()\<close>, which the function calls
  before it returns.)
\<close>

definition add_job :: "string \<Rightarrow> job \<Rightarrow> bool \<Rightarrow> scheduler \<Rightarrow> error + scheduler" where
  "add_job job_id j replace_existing s =
     (if jobs s job_id \<noteq> None \<and> \<not> replace_existing then Inl ConflictingIdError
      else Inr (s\<lparr>jobs := (jobs s)(job_id \<mapsto> j)\<rparr>))"

text \<open>
  "Clear existing reminder jobs to avoid duplicates": every job of \<open>get_jobs()\<close> whose
  id starts with \<open>reminder_\<close> is removed.
\<close>

definition clear_reminder_jobs :: "scheduler \<Rightarrow> scheduler" where
  "clear_reminder_jobs s =
     s\<lparr>jobs := (\<lambda>job_id. if prefix ''reminder_'' job_id then None else jobs s job_id)\<rparr>"

definition alarm_clock :: string where
  "alarm_clock = [CHR 0xE2, CHR 0x8F, CHR 0xB0]"

definition quote :: string where
  "quote = [CHR 0x27]"

definition reminder_message :: "platform \<Rightarrow> item \<Rightarrow> string" where
  "reminder_message P i =
     (let mention_name = mention i;
          mention_text =
            (if mention_name \<noteq> [] then
               (case USER_ID_MAP P mention_name of
                  Some user_id \<Rightarrow>
                    if user_id \<noteq> 0 then ''<@'' @ str_int user_id @ ''>'' else ''@'' @ mention_name
                | None \<Rightarrow> ''@'' @ mention_name)
             else [])
      in alarm_clock @ '' Reminder: '' @ title P (item_type i) @ '' '' @ quote @ name i @ quote
           @ '' due at '' @ format_time_12hour P (due_date i)
           @ (if mention_text \<noteq> [] then '' '' @ mention_text else []) @ newline
           @ ''Priority: '' @ priority i @ newline
           @ ''Notes: '' @ (if item_notes i \<noteq> [] then item_notes i else ''No notes''))"

text \<open>
  The body of the loop over the items, up to the call of \<open>add_job\<close>: \<open>Inr None\<close> is a
  \<open>continue\<close> or a reminder time outside the next 30 days, \<open>Inr (Some (job_id, job))\<close>
  the job to add. The subtraction and the addition are outside the \<open>try\<close> block, so
  their OverflowError leaves the function.
\<close>

definition reminder_for :: "platform \<Rightarrow> datetime \<Rightarrow> item \<Rightarrow> error + (string \<times> job) option" where
  "reminder_for P now i =
     (if status i \<noteq> ''pending'' then Inr None
      else if due_date i = [] then Inr None
      else
        case fromisoformat P (due_date i) of
          None \<Rightarrow> Inr None
        | Some due \<Rightarrow>
           (case minus_timedelta due (timedelta_minutes 30) of
              Inl e \<Rightarrow> Inl e
            | Inr reminder_time \<Rightarrow>
                if dt_key now \<le> dt_key reminder_time then
                  (case plus_timedelta now (timedelta_days 30) of
                     Inl e \<Rightarrow> Inl e
                   | Inr horizon \<Rightarrow>
                       if dt_key reminder_time \<le> dt_key horizon then
                         Inr (Some (''reminder_'' @ str_ident (item_id i) @ ''_''
                                      @ str_int (timestamp P reminder_time),
                                    \<lparr>trigger = DateTrigger reminder_time,
                                     func = SendReminder (reminder_message P i)\<rparr>))
                       else Inr None)
                else Inr None))"

text \<open>
  The loop "Schedule individual reminders". An exception leaves the scheduler as the
  loop has changed it so far, so the scheduler is returned beside the outcome.
\<close>

fun schedule_loop ::
  "platform \<Rightarrow> datetime \<Rightarrow> item list \<Rightarrow> scheduler \<Rightarrow> int \<Rightarrow> (error + int) \<times> scheduler" where
  "schedule_loop P now [] s reminder_count = (Inr reminder_count, s)"
| "schedule_loop P now (i # items) s reminder_count =
     (case reminder_for P now i of
        Inl e \<Rightarrow> (Inl e, s)
      | Inr None \<Rightarrow> schedule_loop P now items s reminder_count
      | Inr (Some (job_id, j)) \<Rightarrow>
         (case add_job job_id j False s of
            Inl e \<Rightarrow> (Inl e, s)
          | Inr s' \<Rightarrow> schedule_loop P now items s' (reminder_count + 1)))"

definition daily_update_job :: job where
  "daily_update_job = \<lparr>trigger = CronTrigger 8 0, func = DailyUpdate\<rparr>"

text \<open>
  The whole pass, from the items the database returned and the clock \<open>now\<close>: the
  outcome is the number of reminders scheduled (the \<open>reminder_count\<close> the function
  prints) or the exception that left it.
\<close>

definition schedule_reminders_and_updates ::
  "platform \<Rightarrow> item list \<Rightarrow> datetime \<Rightarrow> scheduler \<Rightarrow> (error + int) \<times> scheduler" where
  "schedule_reminders_and_updates P items now s =
     (case schedule_loop P now items (clear_reminder_jobs s) 0 of
        (Inl e, s') \<Rightarrow> (Inl e, s')
      | (Inr reminder_count, s') \<Rightarrow>
         (case add_job ''daily_update'' daily_update_job True s' of
            Inl e \<Rightarrow> (Inl e, s')
          | Inr s'' \<Rightarrow> (Inr reminder_count, s''\<lparr>running := True\<rparr>)))"

text \<open>
  For stating which items the planner leaves out: a reminder time outside the look-ahead
  window (before \<open>now\<close>, or after \<open>now\<close> plus 30 days), and an item that is not pending,
  whose due date is empty or does not parse, or whose reminder time is outside the window.
\<close>

definition outside_window :: "datetime \<Rightarrow> datetime \<Rightarrow> bool" where
  "outside_window now reminder_time =
     (dt_key reminder_time < dt_key now
      \<or> (case plus_timedelta now (timedelta_days 30) of
            Inl e \<Rightarrow> False
          | Inr horizon \<Rightarrow> dt_key horizon < dt_key reminder_time))"

definition excluded :: "platform \<Rightarrow> datetime \<Rightarrow> item \<Rightarrow> bool" where
  "excluded P now i =
     (status i \<noteq> ''pending'' \<or> due_date i = []
      \<or> (case fromisoformat P (due_date i) of
            None \<Rightarrow> True
          | Some due \<Rightarrow>
             (case minus_timedelta due (timedelta_minutes 30) of
                Inl e \<Rightarrow> False
              | Inr reminder_time \<Rightarrow> outside_window now reminder_time)))"

section \<open>A concrete platform\<close>

text \<open>
  CPython on Linux with the C locale and the local time zone UTC, restricted to the ISO
  forms \<open>YYYY-MM-DD\<close>, \<open>YYYY-MM-DD?HH:MM\<close> and \<open>YYYY-MM-DD?HH:MM:SS\<close> (\<open>?\<close> any separator),
  which every version of \<open>fromisoformat\<close> accepts. It serves to run the model on examples.
\<close>

definition digit_val :: "char \<Rightarrow> int option" where
  "digit_val c =
     (let n = (of_char c :: nat) in if 48 \<le> n \<and> n \<le> 57 then Some (int n - 48) else None)"

fun digits_val :: "int \<Rightarrow> string \<Rightarrow> int option" where
  "digits_val acc [] = Some acc"
| "digits_val acc (c # cs) =
     (case digit_val c of None \<Rightarrow> None | Some v \<Rightarrow> digits_val (acc * 10 + v) cs)"

definition digits_at :: "string \<Rightarrow> nat \<Rightarrow> nat \<Rightarrow> int option" where
  "digits_at s i n = digits_val 0 (take n (drop i s))"

definition basic_iso_fields :: "string \<Rightarrow> datetime option" where
  "basic_iso_fields s =
     (let n = length s in
      if (n = 10 \<or> n = 16 \<or> n = 19) \<and> s ! 4 = CHR ''-'' \<and> s ! 7 = CHR ''-''
         \<and> (n = 10 \<or> (s ! 13 = CHR '':'' \<and> (n = 16 \<or> s ! 16 = CHR '':'')))
      then
        (case (digits_at s 0 4, digits_at s 5 2, digits_at s 8 2,
               if n = 10 then Some 0 else digits_at s 11 2,
               if n = 10 then Some 0 else digits_at s 14 2,
               if n = 19 then digits_at s 17 2 else Some 0) of
           (Some y, Some m, Some d, Some h, Some mi, Some sec) \<Rightarrow>
             Some \<lparr>year = y, month = m, day = d, hour = h, minute = mi, second = sec,
                   microsecond = 0\<rparr>
         | _ \<Rightarrow> None)
      else None)"

definition c_strftime_12h :: "datetime \<Rightarrow> string" where
  "c_strftime_12h d =
     str_int (year d) @ ''-'' @ zero_pad 2 (str_int (month d)) @ ''-''
       @ zero_pad 2 (str_int (day d)) @ '' ''
       @ zero_pad 2 (str_int (if hour d mod 12 = 0 then 12 else hour d mod 12)) @ '':''
       @ zero_pad 2 (str_int (minute d)) @ '' '' @ (if hour d < 12 then ''AM'' else ''PM'')"

definition utc_timestamp :: "datetime \<Rightarrow> int" where
  "utc_timestamp d =
     (toordinal d - 719163) * 86400 + hour d * 3600 + minute d * 60 + second d"

definition is_lower :: "char \<Rightarrow> bool" where
  "is_lower c = (97 \<le> (of_char c :: nat) \<and> (of_char c :: nat) \<le> 122)"

definition is_upper :: "char \<Rightarrow> bool" where
  "is_upper c = (65 \<le> (of_char c :: nat) \<and> (of_char c :: nat) \<le> 90)"

fun ascii_title_from :: "bool \<Rightarrow> string \<Rightarrow> string" where
  "ascii_title_from previous_cased [] = []"
| "ascii_title_from previous_cased (c # cs) =
     (if is_lower c then
        (if previous_cased then c else char_of ((of_char c :: nat) - 32)) # ascii_title_from True cs
      else if is_upper c then
        (if previous_cased then char_of ((of_char c :: nat) + 32) else c) # ascii_title_from True cs
      else c # ascii_title_from False cs)"

definition utc_platform :: platform where
  "utc_platform =
     \<lparr>iso_fields = basic_iso_fields, strftime_12h = c_strftime_12h, timestamp = utc_timestamp,
      title = ascii_title_from False, USER_ID_MAP = Map.empty\<rparr>"

text \<open>
  The loop without the copying: the dates at which it creates an instance, each with
  the \<open>instance_count\<close> it has there. (\<open>recur_loop_occurrences\<close> below shows that the
  loop of the code creates exactly these instances.)
\<close>

function occurrence_loop ::
  "string \<Rightarrow> datetime \<Rightarrow> datetime \<Rightarrow> datetime \<Rightarrow> int \<Rightarrow> error + (datetime \<times> int) list" where
  "occurrence_loop rep start_date end_date current_date instance_count =
     (if dt_key current_date \<le> dt_key end_date \<and> instance_count < max_instances then
        (let created =
               (if dt_key start_date \<le> dt_key current_date
                then [(current_date, instance_count)] else [])
         in case next_occurrence rep current_date of
              None \<Rightarrow> Inr created
            | Some (Inl e) \<Rightarrow> Inl e
            | Some (Inr nxt) \<Rightarrow>
               (case occurrence_loop rep start_date end_date nxt (instance_count + 1) of
                  Inl e \<Rightarrow> Inl e
                | Inr later \<Rightarrow> Inr (created @ later)))
      else Inr [])"
  by pat_completeness auto
termination
  by (relation "measure (\<lambda>(rep, s, e, c, n). nat (max_instances - n))") auto

declare occurrence_loop.simps [simp del]

text \<open>
  For stating properties of the expansion: the date \<open>k\<close> repeat periods after \<open>d\<close>, as the
  loop reaches it by \<open>k\<close> steps (\<open>None\<close> when a step raises or the interval does not
  repeat), and the order of two occurrences by the datetimes their \<open>due_date\<close> strings spell.
\<close>

fun occurrence_after :: "string \<Rightarrow> nat \<Rightarrow> datetime \<Rightarrow> datetime option" where
  "occurrence_after rep 0 d = Some d"
| "occurrence_after rep (Suc k) d =
     (case next_occurrence rep d of
        Some (Inr d') \<Rightarrow> occurrence_after rep k d'
      | _ \<Rightarrow> None)"

definition occurs_before :: "item \<Rightarrow> item \<Rightarrow> bool" where
  "occurs_before x y =
     (\<exists>a b. valid_datetime a \<and> valid_datetime b \<and> due_date x = isoformat a
        \<and> due_date y = isoformat b \<and> dt_key a < dt_key b)"

definition one_month_apart :: "item \<Rightarrow> item \<Rightarrow> bool" where
  "one_month_apart x y =
     (\<exists>a b. valid_datetime a \<and> valid_datetime b \<and> due_date x = isoformat a
        \<and> due_date y = isoformat b \<and> plus_one_month a = Inr b)"

section \<open>Example inputs\<close>

text \<open>A row as the database holds it after \<open>add_item_db\<close>, with the column defaults.\<close>

definition db_row :: "int \<Rightarrow> string \<Rightarrow> string \<Rightarrow> string \<Rightarrow> string \<Rightarrow> item" where
  "db_row n ty nm due rep =
     \<lparr>item_id = IntId n, item_type = ty, name = nm, due_date = due, status = ''pending'',
      mention = [], repeat_interval = rep, category = ''Misc'', item_notes = [],
      priority = ''Medium'', color = ''#3399ff'', is_recurring_instance = None,
      original_id = None\<rparr>"

definition at :: "int \<Rightarrow> int \<Rightarrow> int \<Rightarrow> int \<Rightarrow> int \<Rightarrow> datetime" where
  "at y m d h mi =
     \<lparr>year = y, month = m, day = d, hour = h, minute = mi, second = 0, microsecond = 0\<rparr>"

text \<open>Rent is due on the 31st, monthly; a stand-up repeats daily.\<close>

definition rent_item :: item where
  "rent_item = db_row 7 ''event'' ''Rent'' ''2025-01-31T09:00'' ''monthly''"

definition standup_item :: item where
  "standup_item = db_row 3 ''event'' ''Stand-up'' ''2025-01-01T09:00'' ''daily''"

definition rent_first_quarter :: "item list" where
  "rent_first_quarter =
     [make_instance rent_item (at 2025 1 31 9 0) 0, make_instance rent_item (at 2025 2 28 9 0) 1,
      make_instance rent_item (at 2025 3 28 9 0) 2]"

text \<open>Two pending tasks: one whose date was typed as free text, one due in three weeks.\<close>

definition plumber_task :: item where
  "plumber_task = db_row 1 ''task'' ''Call plumber'' ''next tuesday'' ''none''"

definition passport_task :: item where
  "passport_task = db_row 4 ''task'' ''Renew passport'' ''2025-10-01T10:00'' ''none''"

text \<open>Six overdue chores and six overdue appointments.\<close>

definition six_overdue_tasks :: "item list" where
  "six_overdue_tasks =
     map (\<lambda>n. db_row n ''task'' ''Chore'' ''2025-09-01T10:00'' ''none'') [1, 2, 3, 4, 5, 6]"

definition six_overdue_events :: "item list" where
  "six_overdue_events =
     map (\<lambda>n. db_row n ''event'' ''Appointment'' ''2025-09-02T15:30'' ''none'') [11, 12, 13, 14, 15, 16]"

text \<open>The meeting of 2025-09-07, 14:00, and an empty scheduler that has not been started.\<close>

definition meeting_item :: item where
  "meeting_item = db_row 1 ''event'' ''Meeting'' ''2025-09-07T14:00'' ''none''"

definition new_scheduler :: scheduler where
  "new_scheduler = \<lparr>jobs = Map.empty, running = False\<rparr>"

text \<open>
  The scheduler after one pass over the meeting at 2025-09-07, 13:00: its reminder for
  13:30 and the daily update. A task entered with a date in the first half hour of the
  year 1, as \<open>!addtask Old | 0001-01-01 00:10\<close> stores it.
\<close>

definition meeting_scheduled :: scheduler where
  "meeting_scheduled =
     \<lparr>jobs = [''reminder_1_1757251800'' \<mapsto>
                 \<lparr>trigger = DateTrigger (at 2025 9 7 13 30),
                  func = SendReminder (reminder_message utc_platform meeting_item)\<rparr>,
               ''daily_update'' \<mapsto> daily_update_job],
      running = True\<rparr>"

definition year_one_item :: item where
  "year_one_item = db_row 2 ''task'' ''Old'' ''0001-01-01T00:10:00'' ''none''"

section \<open>Calendar facts\<close>


lemma next_day_time [simp]:
  "hour (next_day d) = hour d" "minute (next_day d) = minute d"
  "second (next_day d) = second d" "microsecond (next_day d) = microsecond d"
  by (simp_all add: next_day_def)

lemma prev_day_time [simp]:
  "hour (prev_day d) = hour d" "minute (prev_day d) = minute d"
  "second (prev_day d) = second d" "microsecond (prev_day d) = microsecond d"
  by (simp_all add: prev_day_def)

lemma date_key_next_day: "date_key d < date_key (next_day d)"
  by (simp add: date_key_def next_day_def)

lemma date_key_funpow_next_day: "date_key d \<le> date_key ((next_day ^^ n) d)"
proof (induction n)
  case 0
  show ?case by simp
next
  case (Suc n)
  have "date_key ((next_day ^^ n) d) < date_key (next_day ((next_day ^^ n) d))"
    by (rule date_key_next_day)
  with Suc show ?case by simp
qed

lemma date_key_funpow_next_day_less: "0 < n \<Longrightarrow> date_key d < date_key ((next_day ^^ n) d)"
proof (cases n)
  case 0
  assume "0 < n" with 0 show ?thesis by simp
next
  case (Suc k)
  have "date_key d \<le> date_key ((next_day ^^ k) d)" by (rule date_key_funpow_next_day)
  also have "\<dots> < date_key (next_day ((next_day ^^ k) d))" by (rule date_key_next_day)
  finally show ?thesis using Suc by simp
qed

lemma funpow_next_day_time [simp]:
  "hour ((next_day ^^ n) d) = hour d" "minute ((next_day ^^ n) d) = minute d"
  "second ((next_day ^^ n) d) = second d" "microsecond ((next_day ^^ n) d) = microsecond d"
  by (induction n) simp_all






lemma valid_next_day:
  "valid_date d \<Longrightarrow> year (next_day d) \<le> 9999 \<Longrightarrow> valid_date (next_day d)"
  by (auto simp: valid_date_def next_day_def days_in_month_def)

lemma year_next_day_mono: "year d \<le> year (next_day d)"
  by (simp add: next_day_def)

lemma year_funpow_next_day_mono: "year d \<le> year ((next_day ^^ n) d)"
proof (induction n)
  case 0
  show ?case by simp
next
  case (Suc n)
  have "year ((next_day ^^ n) d) \<le> year (next_day ((next_day ^^ n) d))"
    by (rule year_next_day_mono)
  with Suc show ?case by simp
qed

lemma valid_funpow_next_day:
  "valid_date d \<Longrightarrow> year ((next_day ^^ n) d) \<le> 9999 \<Longrightarrow> valid_date ((next_day ^^ n) d)"
proof (induction n)
  case 0
  then show ?case by simp
next
  case (Suc n)
  have "year ((next_day ^^ n) d) \<le> year (next_day ((next_day ^^ n) d))"
    by (rule year_next_day_mono)
  with Suc.prems have "year ((next_day ^^ n) d) \<le> 9999" by simp
  with Suc have "valid_date ((next_day ^^ n) d)" by simp
  with Suc.prems show ?case by (simp add: valid_next_day)
qed

lemma time_of_day_fields:
  fixes h m s :: int
  assumes "0 \<le> h" "h < 24" "0 \<le> m" "m < 60" "0 \<le> s" "s < 60"
  shows "(h * 3600 + m * 60 + s) div 86400 = 0"
    and "(h * 3600 + m * 60 + s) mod 86400 div 3600 = h"
    and "(h * 3600 + m * 60 + s) mod 86400 mod 3600 div 60 = m"
    and "(h * 3600 + m * 60 + s) mod 86400 mod 60 = s"
proof -
  let ?t = "h * 3600 + m * 60 + s"
  have r: "0 \<le> ?t" "?t < 86400" using assms by auto
  then show "?t div 86400 = 0" by simp
  have e: "?t mod 86400 = ?t" using r by simp
  have ms: "0 \<le> m * 60 + s" "m * 60 + s < 3600" using assms by auto
  have "?t = 3600 * h + (m * 60 + s)" by simp
  then have h1: "?t div 3600 = h" using ms by (simp add: int_div_pos_eq)
  have h2: "?t mod 3600 = m * 60 + s"
    using ms \<open>?t = 3600 * h + (m * 60 + s)\<close> by (simp add: int_mod_pos_eq)
  show "?t mod 86400 div 3600 = h" using e h1 by simp
  have "m * 60 + s = 60 * m + s" by simp
  then have h3: "(m * 60 + s) div 60 = m" "(m * 60 + s) mod 60 = s"
    using assms by (simp_all add: int_div_pos_eq int_mod_pos_eq)
  show "?t mod 86400 mod 3600 div 60 = m" using e h2 h3 by simp
  have "?t mod 60 = s"
    by (rule int_mod_pos_eq [where q = "h * 60 + m"]) (use assms in simp_all)
  then show "?t mod 86400 mod 60 = s" using e by simp
qed

lemma date_key_less_imp_dt_key_less:
  "date_key a < date_key b \<Longrightarrow> dt_key a < dt_key b"
  by (auto simp: date_key_def dt_key_def)

lemma plus_timedelta_days:
  assumes "valid_time d" "0 \<le> k"
  shows "plus_timedelta d (Timedelta k 0) =
           (if 9999 < year ((next_day ^^ nat k) d) \<or> year ((next_day ^^ nat k) d) < 1
            then Inl OverflowError else Inr ((next_day ^^ nat k) d))"
proof -
  from assms(1) have t: "0 \<le> hour d" "hour d < 24" "0 \<le> minute d" "minute d < 60"
    "0 \<le> second d" "second d < 60"
    by (simp_all add: valid_time_def)
  note f = time_of_day_fields [OF t]
  let ?e = "(next_day ^^ nat k) d"
  have "?e\<lparr>hour := hour d, minute := minute d, second := second d\<rparr> = ?e"
    by simp
  with assms(2) show ?thesis
    by (auto simp: plus_timedelta_def Let_def shift_days_def f)
qed

lemma valid_time_funpow_next_day: "valid_time ((next_day ^^ n) d) = valid_time d"
  by (simp add: valid_time_def)

lemma plus_timedelta_days_step:
  assumes "valid_datetime c" "0 < k" "plus_timedelta c (Timedelta k 0) = Inr d"
  shows "valid_datetime d \<and> dt_key c < dt_key d"
proof -
  from assms(1) have vt: "valid_time c" and vd: "valid_date c"
    by (simp_all add: valid_datetime_def)
  from assms(2) have k: "0 \<le> k" "0 < nat k" by simp_all
  from assms(3) have d: "d = (next_day ^^ nat k) c" and y: "year d \<le> 9999"
    by (simp_all add: plus_timedelta_days [OF vt k(1)] split: if_splits)
  have "valid_date d" using vd y unfolding d by (rule valid_funpow_next_day)
  moreover have "valid_time d" using vt unfolding d by (simp add: valid_time_funpow_next_day)
  moreover have "date_key c < date_key d"
    unfolding d using k(2) by (rule date_key_funpow_next_day_less)
  ultimately show ?thesis
    by (simp add: valid_datetime_def date_key_less_imp_dt_key_less)
qed

lemma days_in_month_ge: "28 \<le> days_in_month y m"
  by (simp add: days_in_month_def)

lemma plus_one_month_step:
  assumes "valid_datetime c" "plus_one_month c = Inr d"
  shows "valid_datetime d \<and> dt_key c < dt_key d"
proof -
  from assms(1) have v: "1 \<le> year c" "1 \<le> month c" "month c \<le> 12" "1 \<le> day c" "valid_time c"
    by (simp_all add: valid_datetime_def valid_date_def)
  show ?thesis
  proof (cases "month c = 12")
    case True
    with assms(2) have d: "d = c\<lparr>year := year c + 1, month := 1, day := min (days_in_month (year c + 1) 1) (day c)\<rparr>"
      and y: "year c + 1 \<le> 9999"
      by (simp_all add: plus_one_month_def Let_def split: if_splits)
    have "28 \<le> days_in_month (year c + 1) 1" by (rule days_in_month_ge)
    with v y show ?thesis unfolding d
      by (simp add: valid_datetime_def valid_date_def valid_time_def dt_key_def)
  next
    case False
    with v have m: "month c + 1 \<le> 12" by simp
    with assms(2) have d: "d = c\<lparr>month := month c + 1, day := min (days_in_month (year c) (month c + 1)) (day c)\<rparr>"
      and y: "year c \<le> 9999"
      by (simp_all add: plus_one_month_def Let_def split: if_splits)
    have "28 \<le> days_in_month (year c) (month c + 1)" by (rule days_in_month_ge)
    with v y m show ?thesis unfolding d
      by (simp add: valid_datetime_def valid_date_def valid_time_def dt_key_def)
  qed
qed

lemma next_occurrence_step:
  assumes "valid_datetime c" "next_occurrence rep c = Some (Inr d)"
  shows "valid_datetime d \<and> dt_key c < dt_key d"
proof -
  consider (daily) "plus_timedelta c (Timedelta 1 0) = Inr d"
    | (weekly) "plus_timedelta c (Timedelta 7 0) = Inr d"
    | (monthly) "plus_one_month c = Inr d"
    using assms(2)
    by (auto simp: next_occurrence_def timedelta_days_def timedelta_weeks_def split: if_splits)
  then show ?thesis
  proof cases
    case daily
    from assms(1) _ this show ?thesis by (rule plus_timedelta_days_step) simp
  next
    case weekly
    from assms(1) _ this show ?thesis by (rule plus_timedelta_days_step) simp
  next
    case monthly
    from assms(1) this show ?thesis by (rule plus_one_month_step)
  qed
qed





lemma timedelta_minutes_30: "timedelta_minutes 30 = Timedelta 0 1800"
  by (simp add: timedelta_minutes_def)


section \<open>Recurrence expansion\<close>

lemma recur_loop_done:
  assumes "\<not> (dt_key c \<le> dt_key e \<and> n < max_instances)"
  shows "recur_loop it s e c n acc = Inr acc"
  by (subst recur_loop.simps) (simp only: assms if_False)

lemma recur_loop_step:
  assumes "dt_key c \<le> dt_key e \<and> n < max_instances"
  shows "recur_loop it s e c n acc =
     (case next_occurrence (repeat_interval it) c of
        None \<Rightarrow> Inr (if dt_key s \<le> dt_key c then acc @ [make_instance it c n] else acc)
      | Some (Inl err) \<Rightarrow> Inl err
      | Some (Inr nxt) \<Rightarrow>
          recur_loop it s e nxt (n + 1)
            (if dt_key s \<le> dt_key c then acc @ [make_instance it c n] else acc))"
  by (subst recur_loop.simps) (simp only: assms if_True Let_def simp_thms)

lemma occurrence_loop_done:
  assumes "\<not> (dt_key c \<le> dt_key e \<and> n < max_instances)"
  shows "occurrence_loop rep s e c n = Inr []"
  by (subst occurrence_loop.simps) (simp only: assms if_False)

lemma occurrence_loop_step:
  assumes "dt_key c \<le> dt_key e \<and> n < max_instances"
  shows "occurrence_loop rep s e c n =
     (case next_occurrence rep c of
        None \<Rightarrow> Inr (if dt_key s \<le> dt_key c then [(c, n)] else [])
      | Some (Inl err) \<Rightarrow> Inl err
      | Some (Inr nxt) \<Rightarrow>
         (case occurrence_loop rep s e nxt (n + 1) of
            Inl err \<Rightarrow> Inl err
          | Inr later \<Rightarrow> Inr ((if dt_key s \<le> dt_key c then [(c, n)] else []) @ later)))"
  by (subst occurrence_loop.simps) (simp only: assms if_True Let_def simp_thms)

lemma recur_loop_occurrences:
  "recur_loop it s e c n acc =
     (case occurrence_loop (repeat_interval it) s e c n of
        Inl err \<Rightarrow> Inl err
      | Inr ps \<Rightarrow> Inr (acc @ map (\<lambda>(d, k). make_instance it d k) ps))"
proof (induction it s e c n acc rule: recur_loop.induct)
  case (1 it s e c n acc)
  show ?case
  proof (cases "dt_key c \<le> dt_key e \<and> n < max_instances")
    case False
    then show ?thesis
      by (simp add: recur_loop_done occurrence_loop_done)
  next
    case True
    show ?thesis
    proof (cases "next_occurrence (repeat_interval it) c")
      case None
      then show ?thesis
        by (simp add: recur_loop_step [OF True] occurrence_loop_step [OF True])
    next
      case (Some r)
      show ?thesis
      proof (cases r)
        case (Inl err)
        with Some show ?thesis
          by (simp add: recur_loop_step [OF True] occurrence_loop_step [OF True])
      next
        case (Inr nxt)
        with Some "1.IH" [OF True refl _ Inr] show ?thesis
          by (simp add: recur_loop_step [OF True] occurrence_loop_step [OF True]
              split: sum.splits)
      qed
    qed
  qed
qed

lemma occurrence_loop_cases:
  assumes "occurrence_loop rep s e c n = Inr ps"
  obtains (stop) "\<not> (dt_key c \<le> dt_key e \<and> n < max_instances)" "ps = []"
    | (exit) "dt_key c \<le> dt_key e" "n < max_instances" "next_occurrence rep c = None"
        "ps = (if dt_key s \<le> dt_key c then [(c, n)] else [])"
    | (more) nxt later where "dt_key c \<le> dt_key e" "n < max_instances"
        "next_occurrence rep c = Some (Inr nxt)"
        "occurrence_loop rep s e nxt (n + 1) = Inr later"
        "ps = (if dt_key s \<le> dt_key c then [(c, n)] else []) @ later"
proof (cases "dt_key c \<le> dt_key e \<and> n < max_instances")
  case False
  with assms have "ps = []" by (simp add: occurrence_loop_done)
  with False show ?thesis by (rule stop)
next
  case True
  show ?thesis
  proof (cases "next_occurrence rep c")
    case None
    with assms have "ps = (if dt_key s \<le> dt_key c then [(c, n)] else [])"
      by (simp add: occurrence_loop_step [OF True])
    with True None show ?thesis by (auto intro: exit)
  next
    case (Some r)
    show ?thesis
    proof (cases r)
      case (Inl err)
      with assms Some show ?thesis by (simp add: occurrence_loop_step [OF True])
    next
      case (Inr nxt)
      with assms Some obtain later where
        "occurrence_loop rep s e nxt (n + 1) = Inr later"
        "ps = (if dt_key s \<le> dt_key c then [(c, n)] else []) @ later"
        by (auto simp: occurrence_loop_step [OF True] split: sum.splits)
      with True Some Inr show ?thesis by (auto intro: more)
    qed
  qed
qed

lemma occurrence_loop_length:
  "occurrence_loop rep s e c n = Inr ps \<Longrightarrow> length ps \<le> nat (max_instances - n)"
proof (induction rep s e c n arbitrary: ps rule: occurrence_loop.induct)
  case (1 rep s e c n)
  from "1.prems" show ?case
  proof (cases rule: occurrence_loop_cases)
    case stop
    then show ?thesis by simp
  next
    case exit
    then show ?thesis by auto
  next
    case (more nxt later)
    from more(1,2) have True: "dt_key c \<le> dt_key e \<and> n < max_instances" by simp
    from "1.IH" [OF True refl more(3) refl more(4)]
    have "length later \<le> nat (max_instances - (n + 1))" .
    with more(2,5) show ?thesis by auto
  qed
qed

lemma occurrence_loop_head:
  assumes "occurrence_loop rep s e c n = Inr ps"
    and "dt_key s \<le> dt_key c" "dt_key c \<le> dt_key e" "n < max_instances"
  shows "\<exists>rest. ps = (c, n) # rest"
  using assms(1)
proof (cases rule: occurrence_loop_cases)
  case stop
  with assms show ?thesis by simp
next
  case exit
  with assms show ?thesis by simp
next
  case (more nxt later)
  with assms show ?thesis by simp
qed

lemma occurrence_loop_member:
  "occurrence_loop rep s e c n = Inr ps \<Longrightarrow> valid_datetime c \<Longrightarrow> (d, k) \<in> set ps \<Longrightarrow>
     n \<le> k \<and> k < max_instances \<and> occurrence_after rep (nat (k - n)) c = Some d
       \<and> dt_key s \<le> dt_key d \<and> dt_key d \<le> dt_key e \<and> valid_datetime d
       \<and> dt_key c \<le> dt_key d"
proof (induction rep s e c n arbitrary: ps rule: occurrence_loop.induct)
  case (1 rep s e c n)
  have here: "(d, k) \<in> set (if dt_key s \<le> dt_key c then [(c, n)] else []) \<Longrightarrow>
      dt_key c \<le> dt_key e \<Longrightarrow> n < max_instances \<Longrightarrow> ?case"
    using "1.prems"(2) by (auto split: if_splits)
  from "1.prems"(1) show ?case
  proof (cases rule: occurrence_loop_cases)
    case stop
    with "1.prems" show ?thesis by simp
  next
    case exit
    with "1.prems"(3) here show ?thesis by simp
  next
    case (more nxt later)
    from more(1,2) have True: "dt_key c \<le> dt_key e \<and> n < max_instances" by simp
    from "1.prems"(3) more(5)
    consider "(d, k) \<in> set (if dt_key s \<le> dt_key c then [(c, n)] else [])"
      | "(d, k) \<in> set later" by auto
    then show ?thesis
    proof cases
      case 1
      with here more show ?thesis by simp
    next
      case 2
      from next_occurrence_step [OF "1.prems"(2) more(3)]
      have v: "valid_datetime nxt" and lt: "dt_key c < dt_key nxt" by simp_all
      from "1.IH" [OF True refl more(3) refl more(4) v 2]
      have ih: "n + 1 \<le> k" "k < max_instances"
        "occurrence_after rep (nat (k - (n + 1))) nxt = Some d"
        "dt_key s \<le> dt_key d" "dt_key d \<le> dt_key e" "valid_datetime d"
        "dt_key nxt \<le> dt_key d"
        by simp_all
      from ih(1) have "nat (k - n) = Suc (nat (k - (n + 1)))" by simp
      with ih(3) more(3) have "occurrence_after rep (nat (k - n)) c = Some d" by simp
      moreover from lt ih(7) have "dt_key c \<le> dt_key d" by simp
      ultimately show ?thesis using ih by simp
    qed
  qed
qed

lemma occurrence_loop_sorted:
  "occurrence_loop rep s e c n = Inr ps \<Longrightarrow> valid_datetime c \<Longrightarrow>
     sorted_wrt (\<lambda>p q. dt_key (fst p) < dt_key (fst q)) ps"
proof (induction rep s e c n arbitrary: ps rule: occurrence_loop.induct)
  case (1 rep s e c n)
  from "1.prems"(1) show ?case
  proof (cases rule: occurrence_loop_cases)
    case stop
    then show ?thesis by simp
  next
    case exit
    then show ?thesis by simp
  next
    case (more nxt later)
    from more(1,2) have True: "dt_key c \<le> dt_key e \<and> n < max_instances" by simp
    from next_occurrence_step [OF "1.prems"(2) more(3)]
    have v: "valid_datetime nxt" and lt: "dt_key c < dt_key nxt" by simp_all
    from "1.IH" [OF True refl more(3) refl more(4) v]
    have ih: "sorted_wrt (\<lambda>p q. dt_key (fst p) < dt_key (fst q)) later" .
    have "dt_key c < dt_key (fst q)" if "q \<in> set later" for q
    proof -
      obtain d k where q: "q = (d, k)" by (cases q)
      from occurrence_loop_member [OF more(4) v] that q
      have "dt_key nxt \<le> dt_key d" by simp
      with lt q show ?thesis by simp
    qed
    with ih show ?thesis unfolding more(5) by (simp add: sorted_wrt_append)
  qed
qed

lemma occurrence_loop_successive:
  "occurrence_loop rep s e c n = Inr ps \<Longrightarrow> valid_datetime c \<Longrightarrow>
     successively (\<lambda>p q. next_occurrence rep (fst p) = Some (Inr (fst q)) \<and> snd q = snd p + 1) ps"
proof (induction rep s e c n arbitrary: ps rule: occurrence_loop.induct)
  case (1 rep s e c n)
  let ?P = "\<lambda>p q. next_occurrence rep (fst p) = Some (Inr (fst q)) \<and> snd q = snd p + 1"
  from "1.prems"(1) show ?case
  proof (cases rule: occurrence_loop_cases)
    case stop
    then show ?thesis by simp
  next
    case exit
    then show ?thesis by simp
  next
    case (more nxt later)
    from more(1,2) have True: "dt_key c \<le> dt_key e \<and> n < max_instances" by simp
    from next_occurrence_step [OF "1.prems"(2) more(3)]
    have v: "valid_datetime nxt" and lt: "dt_key c < dt_key nxt" by simp_all
    from "1.IH" [OF True refl more(3) refl more(4) v]
    have ih: "successively ?P later" .
    show ?thesis
    proof (cases "dt_key s \<le> dt_key c")
      case False
      with ih more(5) show ?thesis by simp
    next
      case s: True
      show ?thesis
      proof (cases "dt_key nxt \<le> dt_key e \<and> n + 1 < max_instances")
        case False
        then have "later = []" using more(4) by (simp add: occurrence_loop_done)
        with s more(5) show ?thesis by simp
      next
        case True
        from s lt have "dt_key s \<le> dt_key nxt" by simp
        with occurrence_loop_head [OF more(4)] True
        obtain rest where "later = (nxt, n + 1) # rest" by auto
        with ih s more(3,5) show ?thesis by simp
      qed
    qed
  qed
qed

lemma year_next_day_cases:
  "year (next_day e) = year e
   \<or> (year (next_day e) = year e + 1 \<and> month (next_day e) = 1 \<and> day (next_day e) = 1)"
  by (simp add: next_day_def)

lemma next_day_within_month:
  "day e < days_in_month (year e) (month e) \<Longrightarrow>
     year (next_day e) = year e \<and> month (next_day e) = month e \<and> day (next_day e) = day e + 1"
  by (simp add: next_day_def)

lemma year_funpow_next_day_bound:
  "n \<le> 28 \<Longrightarrow>
     year ((next_day ^^ n) d) = year d
     \<or> (year ((next_day ^^ n) d) = year d + 1 \<and> month ((next_day ^^ n) d) = 1
          \<and> day ((next_day ^^ n) d) \<le> int n)"
proof (induction n)
  case 0
  show ?case by simp
next
  case (Suc n)
  define e where "e = (next_day ^^ n) d"
  have step: "(next_day ^^ Suc n) d = next_day e" by (simp add: e_def)
  from Suc have ih: "year e = year d \<or> (year e = year d + 1 \<and> month e = 1 \<and> day e \<le> int n)"
    and n: "n \<le> 27" by (simp_all add: e_def)
  from ih show ?case
  proof
    assume "year e = year d"
    with year_next_day_cases [of e] show ?thesis unfolding step by auto
  next
    assume a: "year e = year d + 1 \<and> month e = 1 \<and> day e \<le> int n"
    with n have "day e < days_in_month (year e) (month e)"
      by (simp add: days_in_month_def)
    from next_day_within_month [OF this] a show ?thesis unfolding step by simp
  qed
qed

lemma next_occurrence_no_error:
  assumes "valid_datetime c" "year c < 9999"
  shows "next_occurrence rep c \<noteq> Some (Inl err)"
proof -
  from assms(1) have vt: "valid_time c" and y1: "1 \<le> year c"
    by (simp_all add: valid_datetime_def valid_date_def)
  have b: "year ((next_day ^^ n) c) \<le> 9999 \<and> 1 \<le> year ((next_day ^^ n) c)" if "n \<le> 28" for n
    using year_funpow_next_day_bound [OF that, of c] assms(2) y1 by auto
  have d: "plus_timedelta c (Timedelta 1 0) \<noteq> Inl err"
    using b [of 1] by (simp add: plus_timedelta_days [OF vt])
  have w: "plus_timedelta c (Timedelta 7 0) \<noteq> Inl err"
    using b [of 7] by (simp add: plus_timedelta_days [OF vt])
  have m: "plus_one_month c \<noteq> Inl err"
    using assms(2) by (simp add: plus_one_month_def Let_def)
  from d w m show ?thesis
    by (simp add: next_occurrence_def timedelta_days_def timedelta_weeks_def)
qed

lemma dt_key_le_year: "dt_key a \<le> dt_key b \<Longrightarrow> year a \<le> year b"
  by (auto simp: dt_key_def)

lemma occurrence_loop_returns:
  "valid_datetime c \<Longrightarrow> year e < 9999 \<Longrightarrow> \<exists>ps. occurrence_loop rep s e c n = Inr ps"
proof (induction rep s e c n rule: occurrence_loop.induct)
  case (1 rep s e c n)
  show ?case
  proof (cases "dt_key c \<le> dt_key e \<and> n < max_instances")
    case False
    then show ?thesis by (simp add: occurrence_loop_done)
  next
    case True
    then have "year c \<le> year e" by (simp add: dt_key_le_year)
    with "1.prems" have y: "year c < 9999" by simp
    show ?thesis
    proof (cases "next_occurrence rep c")
      case None
      then show ?thesis by (simp add: occurrence_loop_step [OF True])
    next
      case (Some r)
      with next_occurrence_no_error [OF "1.prems"(1) y, of rep]
      obtain nxt where r: "r = Inr nxt" by (cases r) auto
      from next_occurrence_step [OF "1.prems"(1)] Some r
      have v: "valid_datetime nxt" by simp
      from "1.IH" [OF True refl Some r v "1.prems"(2)]
      obtain later where "occurrence_loop rep s e nxt (n + 1) = Inr later" by auto
      with Some r show ?thesis by (simp add: occurrence_loop_step [OF True])
    qed
  qed
qed

lemma occurrence_loop_steps_defined:
  "occurrence_after rep (nat (max_instances - n)) c = Some d \<Longrightarrow>
     \<exists>ps. occurrence_loop rep s e c n = Inr ps"
proof (induction rep s e c n rule: occurrence_loop.induct)
  case (1 rep s e c n)
  show ?case
  proof (cases "dt_key c \<le> dt_key e \<and> n < max_instances")
    case False
    then show ?thesis by (simp add: occurrence_loop_done)
  next
    case True
    then have "nat (max_instances - n) = Suc (nat (max_instances - (n + 1)))" by linarith
    with "1.prems" obtain nxt where nx: "next_occurrence rep c = Some (Inr nxt)"
      and af: "occurrence_after rep (nat (max_instances - (n + 1))) nxt = Some d"
      by (auto split: option.splits sum.splits)
    from "1.IH" [OF True refl nx refl af]
    obtain later where "occurrence_loop rep s e nxt (n + 1) = Inr later" by auto
    with nx show ?thesis by (simp add: occurrence_loop_step [OF True])
  qed
qed

lemma occurrence_after_add:
  "occurrence_after rep (j + k) c =
     (case occurrence_after rep j c of None \<Rightarrow> None | Some d \<Rightarrow> occurrence_after rep k d)"
  by (induction j arbitrary: c) (auto split: option.splits sum.splits)

lemma occurrence_after_mono:
  "occurrence_after rep k c = Some d \<Longrightarrow> valid_datetime c \<Longrightarrow>
     valid_datetime d \<and> dt_key c \<le> dt_key d"
proof (induction k arbitrary: c)
  case 0
  then show ?case by simp
next
  case (Suc k)
  from Suc.prems(1) obtain nxt where nx: "next_occurrence rep c = Some (Inr nxt)"
    and af: "occurrence_after rep k nxt = Some d"
    by (auto split: option.splits sum.splits)
  from next_occurrence_step [OF Suc.prems(2) nx]
  have v: "valid_datetime nxt" and lt: "dt_key c < dt_key nxt" by simp_all
  from Suc.IH [OF af v] have "valid_datetime d" and "dt_key nxt \<le> dt_key d" by simp_all
  with lt show ?case by simp
qed

lemma fromisoformat_valid: "fromisoformat P str = Some d \<Longrightarrow> valid_datetime d"
  by (auto simp: fromisoformat_def split: option.splits if_splits)

lemma due_date_make_instance [simp]: "due_date (make_instance it d k) = isoformat d"
  by (simp add: make_instance_def)

lemma item_id_make_instance_0 [simp]: "item_id (make_instance it d 0) = item_id it"
  by (simp add: make_instance_def)

lemma generate_recurring_instances_cases:
  assumes "generate_recurring_instances P now it start_date end_date = Inr xs"
  obtains (single) "xs = [it]"
      "repeat_interval it = ''none'' \<or> fromisoformat P (due_date it) = None"
    | (expanded) s e od ps where "repeat_interval it \<noteq> ''none''"
      "default_start_date now start_date = Inr s" "default_end_date now end_date = Inr e"
      "fromisoformat P (due_date it) = Some od"
      "occurrence_loop (repeat_interval it) s e od 0 = Inr ps"
      "xs = map (\<lambda>(d, k). make_instance it d k) ps"
proof (cases "repeat_interval it = ''none''")
  case True
  with assms have "xs = [it]" by (simp add: generate_recurring_instances_def)
  with True show ?thesis by (auto intro: single)
next
  case False
  with assms obtain s e where s: "default_start_date now start_date = Inr s"
    and e: "default_end_date now end_date = Inr e"
    by (auto simp: generate_recurring_instances_def split: sum.splits)
  show ?thesis
  proof (cases "fromisoformat P (due_date it)")
    case None
    with assms False s e have "xs = [it]" by (simp add: generate_recurring_instances_def)
    with None show ?thesis by (auto intro: single)
  next
    case (Some od)
    with assms False s e have "recur_loop it s e od 0 [] = Inr xs"
      by (simp add: generate_recurring_instances_def)
    then obtain ps where "occurrence_loop (repeat_interval it) s e od 0 = Inr ps"
      "xs = map (\<lambda>(d, k). make_instance it d k) ps"
      by (auto simp: recur_loop_occurrences split: sum.splits)
    with False s e Some show ?thesis by (auto intro: expanded)
  qed
qed

lemma generate_recurring_instances_window:
  assumes "repeat_interval it \<noteq> ''none''" "fromisoformat P (due_date it) = Some od"
  shows "generate_recurring_instances P now it (Some s) (Some e) =
     (case occurrence_loop (repeat_interval it) s e od 0 of
        Inl err \<Rightarrow> Inl err
      | Inr ps \<Rightarrow> Inr (map (\<lambda>(d, k). make_instance it d k) ps))"
  using assms
  by (simp add: generate_recurring_instances_def default_start_date_def default_end_date_def
      recur_loop_occurrences split: sum.splits)

text \<open>
  C6. The expansion is a total function: its loop is bounded by the counter, which
  grows by one each round and stops the loop at 100. Whatever it returns has at most 100
  occurrences, and for a window that ends before the year 9999 no date arithmetic
  overflows, so it does return a sequence.
\<close>

theorem expand_at_most_100_occurrences:
  "(\<forall>xs. generate_recurring_instances P now it start_date end_date = Inr xs
       \<longrightarrow> length xs \<le> 100)
   \<and> (\<forall>s e. start_date = Some s \<and> end_date = Some e \<and> year e < 9999
       \<longrightarrow> (\<exists>xs. generate_recurring_instances P now it start_date end_date = Inr xs))"
proof (intro conjI allI impI)
  fix xs
  assume "generate_recurring_instances P now it start_date end_date = Inr xs"
  then show "length xs \<le> 100"
  proof (cases rule: generate_recurring_instances_cases)
    case single
    then show ?thesis by simp
  next
    case (expanded s e od ps)
    from occurrence_loop_length [OF expanded(5)] expanded(6) show ?thesis
      by (simp add: max_instances_def)
  qed
next
  fix s e
  assume a: "start_date = Some s \<and> end_date = Some e \<and> year e < 9999"
  show "\<exists>xs. generate_recurring_instances P now it start_date end_date = Inr xs"
  proof (cases "repeat_interval it = ''none'' \<or> fromisoformat P (due_date it) = None")
    case True
    with a show ?thesis
      by (auto simp: generate_recurring_instances_def default_start_date_def default_end_date_def)
  next
    case False
    then obtain od where r: "repeat_interval it \<noteq> ''none''"
      and od: "fromisoformat P (due_date it) = Some od" by auto
    from od have "valid_datetime od" by (rule fromisoformat_valid)
    with a obtain ps where "occurrence_loop (repeat_interval it) s e od 0 = Inr ps"
      using occurrence_loop_returns by blast
    with a show ?thesis
      by (simp add: generate_recurring_instances_window [OF r od])
  qed
qed

theorem expand_at_most_100_occurrences_witness:
  "\<exists>xs. generate_recurring_instances utc_platform (at 2025 1 1 0 0) standup_item
           (Some (at 2025 1 1 0 0)) (Some (at 2030 1 1 0 0)) = Inr xs \<and> length xs \<le> 100"
proof -
  have "year (at 2030 1 1 0 0) < 9999" by (simp add: at_def)
  with expand_at_most_100_occurrences
    [of utc_platform "at 2025 1 1 0 0" standup_item "Some (at 2025 1 1 0 0)" "Some (at 2030 1 1 0 0)"]
  show ?thesis by blast
qed

lemma parse_2025_01_15: "fromisoformat utc_platform ''2025-01-15T10:00'' = Some (at 2025 1 15 10 0)"
  by (simp add: fromisoformat_def utc_platform_def basic_iso_fields_def digits_at_def digit_val_def
      at_def valid_datetime_def valid_date_def valid_time_def days_in_month_def is_leap_def)

text \<open>
  C4 (as amended). An item with \<open>repeat_interval = none\<close> is returned as the single
  occurrence, unchanged, whatever the window is: the function returns before it looks
  at the window, so a window that excludes the due date also yields the item.
\<close>

theorem expand_none_returns_item:
  "repeat_interval it = ''none'' \<Longrightarrow>
     generate_recurring_instances P now it start_date end_date = Inr [it]"
  by (simp add: generate_recurring_instances_def)

theorem expand_none_returns_item_witness:
  "repeat_interval (db_row 1 ''event'' ''Meeting'' ''2025-01-15T10:00'' ''none'') = ''none''
   \<and> generate_recurring_instances utc_platform (at 2025 1 1 0 0)
        (db_row 1 ''event'' ''Meeting'' ''2025-01-15T10:00'' ''none'')
        (Some (at 2025 1 1 0 0)) (Some (at 2025 2 1 0 0))
      = Inr [db_row 1 ''event'' ''Meeting'' ''2025-01-15T10:00'' ''none'']"
  using expand_none_returns_item
    [of "db_row 1 ''event'' ''Meeting'' ''2025-01-15T10:00'' ''none''" utc_platform
        "at 2025 1 1 0 0" "Some (at 2025 1 1 0 0)" "Some (at 2025 2 1 0 0)"]
  by (simp add: db_row_def)

text \<open>
  C4 as stated fails: the item is due 2025-01-15T10:00, the window is the year 2026,
  and the expansion is the item, not the empty list.
\<close>

theorem expand_none_window_excluding_counterexample:
  "fromisoformat utc_platform (due_date (db_row 1 ''event'' ''Meeting'' ''2025-01-15T10:00'' ''none''))
     = Some (at 2025 1 15 10 0)
   \<and> \<not> (dt_key (at 2026 1 1 0 0) \<le> dt_key (at 2025 1 15 10 0)
          \<and> dt_key (at 2025 1 15 10 0) \<le> dt_key (at 2026 12 31 0 0))
   \<and> generate_recurring_instances utc_platform (at 2025 1 1 0 0)
        (db_row 1 ''event'' ''Meeting'' ''2025-01-15T10:00'' ''none'')
        (Some (at 2026 1 1 0 0)) (Some (at 2026 12 31 0 0))
      = Inr [db_row 1 ''event'' ''Meeting'' ''2025-01-15T10:00'' ''none'']
   \<and> generate_recurring_instances utc_platform (at 2025 1 1 0 0)
        (db_row 1 ''event'' ''Meeting'' ''2025-01-15T10:00'' ''none'')
        (Some (at 2026 1 1 0 0)) (Some (at 2026 12 31 0 0))
      \<noteq> Inr []"
  by (simp add: parse_2025_01_15 generate_recurring_instances_def db_row_def dt_key_def at_def)

lemma occurrence_loop_valid:
  assumes "occurrence_loop rep s e c n = Inr ps" "valid_datetime c" "p \<in> set ps"
  shows "valid_datetime (fst p)"
proof -
  obtain d k where "p = (d, k)" by (cases p)
  with occurrence_loop_member [OF assms(1,2)] assms(3) show ?thesis by simp
qed

lemma sorted_wrt_map_instances:
  assumes "sorted_wrt (\<lambda>p q. dt_key (fst p) < dt_key (fst q)) ps"
    and "\<forall>p\<in>set ps. valid_datetime (fst p)"
  shows "sorted_wrt occurs_before (map (\<lambda>(d, k). make_instance it d k) ps)"
proof -
  have "sorted_wrt (\<lambda>p q. occurs_before (case p of (d, k) \<Rightarrow> make_instance it d k)
           (case q of (d, k) \<Rightarrow> make_instance it d k)) ps"
    using assms
  proof (induction ps)
    case Nil
    show ?case by simp
  next
    case (Cons p ps)
    have "occurs_before (case p of (d, k) \<Rightarrow> make_instance it d k)
            (case q of (d, k) \<Rightarrow> make_instance it d k)" if "q \<in> set ps" for q
    proof -
      from Cons.prems that have "dt_key (fst p) < dt_key (fst q)"
        "valid_datetime (fst p)" "valid_datetime (fst q)" by auto
      then show ?thesis
        by (cases p; cases q) (auto simp: occurs_before_def)
    qed
    with Cons show ?case by simp
  qed
  then show ?thesis by (simp add: sorted_wrt_map)
qed

lemma parse_rent: "fromisoformat utc_platform (due_date rent_item) = Some (at 2025 1 31 9 0)"
  by (simp add: rent_item_def db_row_def fromisoformat_def utc_platform_def basic_iso_fields_def
      digits_at_def digit_val_def at_def valid_datetime_def valid_date_def valid_time_def
      days_in_month_def is_leap_def)

lemma parse_standup: "fromisoformat utc_platform (due_date standup_item) = Some (at 2025 1 1 9 0)"
  by (simp add: standup_item_def db_row_def fromisoformat_def utc_platform_def basic_iso_fields_def
      digits_at_def digit_val_def at_def valid_datetime_def valid_date_def valid_time_def
      days_in_month_def is_leap_def)

lemma repeat_examples [simp]:
  "repeat_interval rent_item = ''monthly''" "repeat_interval standup_item = ''daily''"
  by (simp_all add: rent_item_def standup_item_def db_row_def)

lemma rent_occurrences:
  "occurrence_loop ''monthly'' (at 2025 1 1 0 0) (at 2025 4 1 0 0) (at 2025 1 31 9 0) 0
     = Inr [(at 2025 1 31 9 0, 0), (at 2025 2 28 9 0, 1), (at 2025 3 28 9 0, 2)]"
  by code_simp

lemma rent_expansion:
  "generate_recurring_instances utc_platform (at 2025 1 1 0 0) rent_item
     (Some (at 2025 1 1 0 0)) (Some (at 2025 4 1 0 0)) = Inr rent_first_quarter"
proof -
  have r: "repeat_interval rent_item \<noteq> ''none''" by simp
  show ?thesis
    by (simp add: generate_recurring_instances_window [OF r parse_rent] rent_occurrences
        rent_first_quarter_def)
qed

lemma standup_occurrences:
  "occurrence_loop ''daily'' (at 2025 1 10 0 0) (at 2025 1 12 23 59) (at 2025 1 1 9 0) 0
     = Inr [(at 2025 1 10 9 0, 9), (at 2025 1 11 9 0, 10), (at 2025 1 12 9 0, 11)]"
  by code_simp

lemma isoformat_examples:
  "isoformat (at 2025 1 1 9 0) = ''2025-01-01T09:00:00''"
  "isoformat (at 2025 1 10 9 0) = ''2025-01-10T09:00:00''"
  "isoformat (at 2025 1 31 9 0) = ''2025-01-31T09:00:00''"
  "isoformat (at 2025 2 28 9 0) = ''2025-02-28T09:00:00''"
  "isoformat (at 2025 3 28 9 0) = ''2025-03-28T09:00:00''"
  by code_simp+


lemma occurrence_loop_first:
  "occurrence_loop rep s e c n = Inr ps \<Longrightarrow> valid_datetime c \<Longrightarrow>
   occurrence_after rep j c = Some d \<Longrightarrow>
   (\<forall>i<j. \<exists>di. occurrence_after rep i c = Some di \<and> dt_key di < dt_key s) \<Longrightarrow>
   dt_key s \<le> dt_key d \<Longrightarrow> dt_key d \<le> dt_key e \<Longrightarrow> n + int j < max_instances \<Longrightarrow>
   \<exists>rest. ps = (d, n + int j) # rest"
proof (induction j arbitrary: c n ps)
  case 0
  then show ?case using occurrence_loop_head [of rep s e c n ps] by simp
next
  case (Suc j)
  from Suc.prems(3) obtain nxt where nx: "next_occurrence rep c = Some (Inr nxt)"
    and af: "occurrence_after rep j nxt = Some d"
    by (auto split: option.splits sum.splits)
  from next_occurrence_step [OF Suc.prems(2) nx]
  have v: "valid_datetime nxt" and lt: "dt_key c < dt_key nxt" by simp_all
  from occurrence_after_mono [OF af v] have "dt_key nxt \<le> dt_key d" by simp
  with lt Suc.prems(6) have ce: "dt_key c \<le> dt_key e" by simp
  from Suc.prems(4) [rule_format, of 0] have cs: "\<not> dt_key s \<le> dt_key c" by simp
  have before: "\<forall>i<j. \<exists>di. occurrence_after rep i nxt = Some di \<and> dt_key di < dt_key s"
  proof (intro allI impI)
    fix i assume "i < j"
    with Suc.prems(4) [rule_format, of "Suc i"] nx
    show "\<exists>di. occurrence_after rep i nxt = Some di \<and> dt_key di < dt_key s" by simp
  qed
  from Suc.prems(7) have n: "n < max_instances" "n + 1 + int j < max_instances" by simp_all
  from Suc.prems(1) show ?case
  proof (cases rule: occurrence_loop_cases)
    case stop
    with ce n show ?thesis by simp
  next
    case exit
    with nx show ?thesis by simp
  next
    case (more nxt' later)
    with nx have l: "occurrence_loop rep s e nxt (n + 1) = Inr later" by simp
    from Suc.IH [OF l v af before Suc.prems(5,6) n(2)] more(5) cs
    show ?thesis by (simp add: algebra_simps)
  qed
qed

lemma occurrence_loop_head_first:
  "occurrence_loop rep s e c n = Inr ps \<Longrightarrow> ps = (d, k) # rest \<Longrightarrow>
   \<forall>j<nat (k - n). \<exists>dj. occurrence_after rep j c = Some dj \<and> dt_key dj < dt_key s"
proof (induction rep s e c n arbitrary: ps rule: occurrence_loop.induct)
  case (1 rep s e c n)
  from "1.prems"(1) show ?case
  proof (cases rule: occurrence_loop_cases)
    case stop
    with "1.prems" show ?thesis by simp
  next
    case exit
    with "1.prems"(2) show ?thesis by (auto split: if_splits)
  next
    case (more nxt later)
    from more(1,2) have True: "dt_key c \<le> dt_key e \<and> n < max_instances" by simp
    show ?thesis
    proof (cases "dt_key s \<le> dt_key c")
      case True
      with more(5) "1.prems"(2) show ?thesis by simp
    next
      case False
      with more(5) "1.prems"(2) have l: "later = (d, k) # rest" by simp
      from "1.IH" [OF True refl more(3) refl more(4) l]
      have ih: "\<forall>j<nat (k - (n + 1)). \<exists>dj. occurrence_after rep j nxt = Some dj
                  \<and> dt_key dj < dt_key s" .
      show ?thesis
      proof (intro allI impI)
        fix j assume j: "j < nat (k - n)"
        show "\<exists>dj. occurrence_after rep j c = Some dj \<and> dt_key dj < dt_key s"
        proof (cases j)
          case 0
          with False show ?thesis by simp
        next
          case (Suc j')
          with j have "j' < nat (k - (n + 1))" by simp
          with ih Suc more(3) show ?thesis by simp
        qed
      qed
    qed
  qed
qed

lemma standup_expansion:
  "generate_recurring_instances utc_platform (at 2025 1 1 0 0) standup_item
        (Some (at 2025 1 10 0 0)) (Some (at 2025 1 12 23 59))
      = Inr [make_instance standup_item (at 2025 1 10 9 0) 9,
             make_instance standup_item (at 2025 1 11 9 0) 10,
             make_instance standup_item (at 2025 1 12 9 0) 11]"
proof -
  have r: "repeat_interval standup_item \<noteq> ''none''" by simp
  show ?thesis
    by (simp add: generate_recurring_instances_window [OF r parse_standup] standup_occurrences)
qed

text \<open>
  C7 (as amended). The occurrences returned for an item are strictly increasing in time.
  The first one is the item's own due date when that date lies in the window. A
  recurring item that is due before the window starts begins with its first repetition
  inside the window instead: whatever is returned starts with repetition \<open>k\<close> of the due
  date, where \<open>k\<close> is positive, repetition \<open>k\<close> lies in the window and every repetition
  before it lies before the window start; and when the first repetition that is not
  before the window start is one of the first 100 and not after the window end, the
  result is not empty and starts with it.
\<close>

theorem occurrences_increasing_and_first_in_window:
  assumes "generate_recurring_instances P now it start_date end_date = Inr xs"
  shows "sorted_wrt occurs_before xs
     \<and> (\<forall>s e od. default_start_date now start_date = Inr s
           \<and> default_end_date now end_date = Inr e
           \<and> fromisoformat P (due_date it) = Some od
           \<and> dt_key s \<le> dt_key od \<and> dt_key od \<le> dt_key e
         \<longrightarrow> xs \<noteq> [] \<and> item_id (hd xs) = item_id it
             \<and> due_date (hd xs)
                 = (if repeat_interval it = ''none'' then due_date it else isoformat od))
     \<and> (\<forall>s e od. default_start_date now start_date = Inr s
           \<and> default_end_date now end_date = Inr e
           \<and> fromisoformat P (due_date it) = Some od
           \<and> repeat_interval it \<noteq> ''none'' \<and> dt_key od < dt_key s
         \<longrightarrow> (xs \<noteq> [] \<longrightarrow>
                (\<exists>k d. hd xs = make_instance it d (int k) \<and> 0 < k \<and> k < 100
                   \<and> occurrence_after (repeat_interval it) k od = Some d
                   \<and> dt_key s \<le> dt_key d \<and> dt_key d \<le> dt_key e
                   \<and> (\<forall>j<k. \<exists>dj. occurrence_after (repeat_interval it) j od = Some dj
                                \<and> dt_key dj < dt_key s)))
             \<and> (\<forall>k d. k < 100 \<and> occurrence_after (repeat_interval it) k od = Some d
                   \<and> dt_key s \<le> dt_key d \<and> dt_key d \<le> dt_key e
                   \<and> (\<forall>j<k. \<exists>dj. occurrence_after (repeat_interval it) j od = Some dj
                                \<and> dt_key dj < dt_key s)
                 \<longrightarrow> xs \<noteq> [] \<and> hd xs = make_instance it d (int k)))"
  using assms
proof (cases rule: generate_recurring_instances_cases)
  case single
  then show ?thesis by auto
next
  case (expanded s e od ps)
  let ?rep = "repeat_interval it"
  have v: "valid_datetime od" using expanded(4) by (rule fromisoformat_valid)
  have "sorted_wrt occurs_before xs"
    unfolding expanded(6)
    using occurrence_loop_sorted [OF expanded(5) v] occurrence_loop_valid [OF expanded(5) v]
    by (intro sorted_wrt_map_instances) auto
  moreover have "xs \<noteq> [] \<and> item_id (hd xs) = item_id it \<and> due_date (hd xs) = isoformat od"
    if "dt_key s \<le> dt_key od" "dt_key od \<le> dt_key e"
  proof -
    from occurrence_loop_head [OF expanded(5) that]
    obtain rest where "ps = (od, 0) # rest" by (auto simp: max_instances_def)
    then show ?thesis unfolding expanded(6) by simp
  qed
  moreover have "\<exists>k d. hd xs = make_instance it d (int k) \<and> 0 < k \<and> k < 100
                   \<and> occurrence_after ?rep k od = Some d
                   \<and> dt_key s \<le> dt_key d \<and> dt_key d \<le> dt_key e
                   \<and> (\<forall>j<k. \<exists>dj. occurrence_after ?rep j od = Some dj
                                \<and> dt_key dj < dt_key s)"
    if before: "dt_key od < dt_key s" and ne: "xs \<noteq> []"
  proof -
    from ne expanded(6) obtain d k rest where ps: "ps = (d, k) # rest"
      by (cases ps) auto
    then have mem: "(d, k) \<in> set ps" by simp
    from occurrence_loop_member [OF expanded(5) v mem]
    have m: "0 \<le> k" "k < max_instances" "occurrence_after ?rep (nat k) od = Some d"
      "dt_key s \<le> dt_key d" "dt_key d \<le> dt_key e"
      by simp_all
    from occurrence_loop_head_first [OF expanded(5) ps]
    have f: "\<forall>j<nat k. \<exists>dj. occurrence_after ?rep j od = Some dj \<and> dt_key dj < dt_key s"
      by simp
    have "0 < nat k"
    proof (rule ccontr)
      assume "\<not> 0 < nat k"
      with m(3) have "d = od" by simp
      with m(4) before show False by simp
    qed
    moreover from m(1,2) have "nat k < 100" by (simp add: max_instances_def)
    moreover from ps expanded(6) m(1) have "hd xs = make_instance it d (int (nat k))" by simp
    ultimately show ?thesis using m(3,4,5) f by blast
  qed
  moreover have "xs \<noteq> [] \<and> hd xs = make_instance it d (int k)"
    if "k < 100" "occurrence_after ?rep k od = Some d" "dt_key s \<le> dt_key d"
      "dt_key d \<le> dt_key e"
      "\<forall>j<k. \<exists>dj. occurrence_after ?rep j od = Some dj \<and> dt_key dj < dt_key s"
    for k d
  proof -
    from that(1) have "0 + int k < max_instances" by (simp add: max_instances_def)
    from occurrence_loop_first [OF expanded(5) v that(2,5,3,4) this]
    obtain rest where "ps = (d, int k) # rest" by auto
    then show ?thesis unfolding expanded(6) by simp
  qed
  ultimately show ?thesis using expanded(1-4) by auto
qed

theorem occurrences_increasing_and_first_in_window_witness:
  "generate_recurring_instances utc_platform (at 2025 1 1 0 0) rent_item
     (Some (at 2025 1 1 0 0)) (Some (at 2025 4 1 0 0)) = Inr rent_first_quarter
   \<and> sorted_wrt occurs_before rent_first_quarter
   \<and> due_date (hd rent_first_quarter) = isoformat (at 2025 1 31 9 0)
   \<and> fromisoformat utc_platform (due_date standup_item) = Some (at 2025 1 1 9 0)
   \<and> dt_key (at 2025 1 1 9 0) < dt_key (at 2025 1 10 0 0)
   \<and> (\<exists>xs. generate_recurring_instances utc_platform (at 2025 1 1 0 0) standup_item
              (Some (at 2025 1 10 0 0)) (Some (at 2025 1 12 23 59)) = Inr xs \<and> xs \<noteq> []
         \<and> (\<exists>k d. hd xs = make_instance standup_item d (int k) \<and> 0 < k \<and> k < 100
               \<and> occurrence_after ''daily'' k (at 2025 1 1 9 0) = Some d
               \<and> dt_key (at 2025 1 10 0 0) \<le> dt_key d
               \<and> dt_key d \<le> dt_key (at 2025 1 12 23 59)
               \<and> (\<forall>j<k. \<exists>dj. occurrence_after ''daily'' j (at 2025 1 1 9 0) = Some dj
                            \<and> dt_key dj < dt_key (at 2025 1 10 0 0))))"
proof -
  have "dt_key (at 2025 1 1 0 0) \<le> dt_key (at 2025 1 31 9 0)"
    "dt_key (at 2025 1 31 9 0) \<le> dt_key (at 2025 4 1 0 0)"
    by (simp_all add: dt_key_def at_def)
  with occurrences_increasing_and_first_in_window [OF rent_expansion] parse_rent rent_expansion
  have rent: "generate_recurring_instances utc_platform (at 2025 1 1 0 0) rent_item
     (Some (at 2025 1 1 0 0)) (Some (at 2025 4 1 0 0)) = Inr rent_first_quarter
   \<and> sorted_wrt occurs_before rent_first_quarter
   \<and> due_date (hd rent_first_quarter) = isoformat (at 2025 1 31 9 0)"
    by (simp add: default_start_date_def default_end_date_def)
  have lt: "dt_key (at 2025 1 1 9 0) < dt_key (at 2025 1 10 0 0)"
    by (simp add: dt_key_def at_def)
  with occurrences_increasing_and_first_in_window [OF standup_expansion] parse_standup
  have "\<exists>k d. hd [make_instance standup_item (at 2025 1 10 9 0) 9,
             make_instance standup_item (at 2025 1 11 9 0) 10,
             make_instance standup_item (at 2025 1 12 9 0) 11]
            = make_instance standup_item d (int k) \<and> 0 < k \<and> k < 100
               \<and> occurrence_after ''daily'' k (at 2025 1 1 9 0) = Some d
               \<and> dt_key (at 2025 1 10 0 0) \<le> dt_key d
               \<and> dt_key d \<le> dt_key (at 2025 1 12 23 59)
               \<and> (\<forall>j<k. \<exists>dj. occurrence_after ''daily'' j (at 2025 1 1 9 0) = Some dj
                            \<and> dt_key dj < dt_key (at 2025 1 10 0 0))"
    by (simp add: default_start_date_def default_end_date_def)
  with rent lt parse_standup standup_expansion show ?thesis by simp
qed

text \<open>
  C7 as stated fails: the stand-up is due 2025-01-01T09:00 and repeats daily; in the
  window from 2025-01-10 to 2025-01-12 the first occurrence is the one of 2025-01-10,
  with the id of the ninth repetition, not the item's own due date.
\<close>

theorem first_occurrence_not_due_date_counterexample:
  "fromisoformat utc_platform (due_date standup_item) = Some (at 2025 1 1 9 0)
   \<and> isoformat (at 2025 1 1 9 0) = ''2025-01-01T09:00:00''
   \<and> generate_recurring_instances utc_platform (at 2025 1 1 0 0) standup_item
        (Some (at 2025 1 10 0 0)) (Some (at 2025 1 12 23 59))
      = Inr [make_instance standup_item (at 2025 1 10 9 0) 9,
             make_instance standup_item (at 2025 1 11 9 0) 10,
             make_instance standup_item (at 2025 1 12 9 0) 11]
   \<and> due_date (make_instance standup_item (at 2025 1 10 9 0) 9) = ''2025-01-10T09:00:00''
   \<and> item_id (make_instance standup_item (at 2025 1 10 9 0) 9) = StrId ''3_recur_9''"
proof -
  have "item_id (make_instance standup_item (at 2025 1 10 9 0) 9) = StrId ''3_recur_9''"
    by code_simp
  then show ?thesis
    by (simp add: standup_expansion parse_standup isoformat_examples)
qed

lemma successively_map_instances:
  assumes "successively (\<lambda>p q. next_occurrence ''monthly'' (fst p) = Some (Inr (fst q))
             \<and> snd q = snd p + 1) ps"
    and "\<forall>p\<in>set ps. valid_datetime (fst p)"
  shows "successively one_month_apart (map (\<lambda>(d, k). make_instance it d k) ps)"
  using assms
proof (induction ps rule: induct_list012)
  case 1
  show ?case by simp
next
  case (2 p)
  show ?case by simp
next
  case (3 p q ps)
  from "3.prems" have "plus_one_month (fst p) = Inr (fst q)"
    "valid_datetime (fst p)" "valid_datetime (fst q)"
    by (simp_all add: next_occurrence_def)
  then have "one_month_apart (case p of (d, k) \<Rightarrow> make_instance it d k)
     (case q of (d, k) \<Rightarrow> make_instance it d k)"
    by (cases p; cases q) (auto simp: one_month_apart_def)
  with 3 show ?case by simp
qed

lemma plus_one_month_next_month:
  assumes "valid_datetime a" "plus_one_month a = Inr b"
  shows "valid_datetime b \<and> year b * 12 + month b = year a * 12 + month a + 1
     \<and> day b = min (day a) (days_in_month (year b) (month b))"
proof -
  from plus_one_month_step [OF assms] have "valid_datetime b" by simp
  moreover from assms(1) have "1 \<le> month a" "month a \<le> 12"
    by (simp_all add: valid_datetime_def valid_date_def)
  with assms(2) have "year b * 12 + month b = year a * 12 + month a + 1
     \<and> day b = min (day a) (days_in_month (year b) (month b))"
    by (auto simp: plus_one_month_def Let_def split: if_splits)
  ultimately show ?thesis by simp
qed

lemma rent_dates:
  "map due_date rent_first_quarter
     = [''2025-01-31T09:00:00'', ''2025-02-28T09:00:00'', ''2025-03-28T09:00:00'']"
  by (simp add: rent_first_quarter_def isoformat_examples)

text \<open>
  C2 (as amended). For a monthly item each occurrence is the previous occurrence plus one
  calendar month: the month is exactly the next one and the day is the previous
  occurrence's day clamped to the length of that month. The step is taken from the previous
  occurrence, not from the original due date, so a day once clamped stays: the item due
  2025-01-31T09:00 yields 2025-01-31, 2025-02-28 and 2025-03-28 in the window from
  2025-01-01 to 2025-04-01.
\<close>

theorem monthly_occurrences_one_month_apart:
  "(\<forall>xs. repeat_interval it = ''monthly''
        \<and> generate_recurring_instances P now it start_date end_date = Inr xs
       \<longrightarrow> successively one_month_apart xs)
   \<and> (\<forall>a b. valid_datetime a \<and> plus_one_month a = Inr b
       \<longrightarrow> valid_datetime b \<and> year b * 12 + month b = year a * 12 + month a + 1
           \<and> day b = min (day a) (days_in_month (year b) (month b)))
   \<and> map_sum id (map due_date)
        (generate_recurring_instances utc_platform (at 2025 1 1 0 0) rent_item
           (Some (at 2025 1 1 0 0)) (Some (at 2025 4 1 0 0)))
      = Inr [''2025-01-31T09:00:00'', ''2025-02-28T09:00:00'', ''2025-03-28T09:00:00'']"
proof (intro conjI allI impI)
  fix xs
  assume a: "repeat_interval it = ''monthly''
        \<and> generate_recurring_instances P now it start_date end_date = Inr xs"
  then have "generate_recurring_instances P now it start_date end_date = Inr xs" by simp
  then show "successively one_month_apart xs"
  proof (cases rule: generate_recurring_instances_cases)
    case single
    then show ?thesis by simp
  next
    case (expanded s e od ps)
    have v: "valid_datetime od" using expanded(4) by (rule fromisoformat_valid)
    from a expanded(5) have l: "occurrence_loop ''monthly'' s e od 0 = Inr ps" by simp
    show ?thesis
      unfolding expanded(6)
      using occurrence_loop_successive [OF l v] occurrence_loop_valid [OF l v]
      by (intro successively_map_instances) auto
  qed
next
  fix a b
  assume "valid_datetime a \<and> plus_one_month a = Inr b"
  then show "valid_datetime b" "year b * 12 + month b = year a * 12 + month a + 1"
    "day b = min (day a) (days_in_month (year b) (month b))"
    using plus_one_month_next_month [of a b] by simp_all
next
  show "map_sum id (map due_date)
        (generate_recurring_instances utc_platform (at 2025 1 1 0 0) rent_item
           (Some (at 2025 1 1 0 0)) (Some (at 2025 4 1 0 0)))
      = Inr [''2025-01-31T09:00:00'', ''2025-02-28T09:00:00'', ''2025-03-28T09:00:00'']"
    by (simp add: rent_expansion rent_dates)
qed

theorem monthly_occurrences_one_month_apart_witness:
  "repeat_interval rent_item = ''monthly''
   \<and> generate_recurring_instances utc_platform (at 2025 1 1 0 0) rent_item
        (Some (at 2025 1 1 0 0)) (Some (at 2025 4 1 0 0)) = Inr rent_first_quarter
   \<and> successively one_month_apart rent_first_quarter
   \<and> valid_datetime (at 2025 1 31 9 0)
   \<and> plus_one_month (at 2025 1 31 9 0) = Inr (at 2025 2 28 9 0)
   \<and> plus_one_month (at 2025 2 28 9 0) = Inr (at 2025 3 28 9 0)"
proof -
  have "valid_datetime (at 2025 1 31 9 0)"
    by (simp add: at_def valid_datetime_def valid_date_def valid_time_def days_in_month_def)
  moreover have "plus_one_month (at 2025 1 31 9 0) = Inr (at 2025 2 28 9 0)"
    "plus_one_month (at 2025 2 28 9 0) = Inr (at 2025 3 28 9 0)"
    by (simp_all add: plus_one_month_def at_def days_in_month_def is_leap_def)
  ultimately show ?thesis
    using monthly_occurrences_one_month_apart
      [of rent_item utc_platform "at 2025 1 1 0 0" "Some (at 2025 1 1 0 0)" "Some (at 2025 4 1 0 0)"]
      rent_expansion
    by simp
qed

text \<open>
  C2 as stated fails in its example: the third occurrence is 2025-03-28, one month after
  2025-02-28, and not 2025-03-31.
\<close>

theorem monthly_scenario_counterexample:
  "map_sum id (map (take 10 \<circ> due_date))
     (generate_recurring_instances utc_platform (at 2025 1 1 0 0) rent_item
        (Some (at 2025 1 1 0 0)) (Some (at 2025 4 1 0 0)))
     = Inr [''2025-01-31'', ''2025-02-28'', ''2025-03-28'']
   \<and> map_sum id (map (take 10 \<circ> due_date))
     (generate_recurring_instances utc_platform (at 2025 1 1 0 0) rent_item
        (Some (at 2025 1 1 0 0)) (Some (at 2025 4 1 0 0)))
     \<noteq> Inr [''2025-01-31'', ''2025-02-28'', ''2025-03-31'']"
  by (simp add: rent_expansion rent_first_quarter_def isoformat_examples)

lemma standup_after_100:
  "occurrence_after ''daily'' 100 (at 2025 1 1 9 0) = Some (at 2025 4 11 9 0)"
  by code_simp

text \<open>
  C10. The counter \<open>instance_count\<close> grows with every round of the loop, also in the
  rounds before the window: an instance the expansion returns for a recurring item is the
  \<open>k\<close>-th step from the due date for some \<open>k\<close> below 100, numbered \<open>k\<close>. So when the date
  100 repeat periods after the due date is still before the window starts, the expansion
  is empty, however far the window extends.
\<close>

theorem cap_counts_steps_before_window:
  assumes "repeat_interval it \<noteq> ''none''" "fromisoformat P (due_date it) = Some od"
  shows "(\<forall>s e xs. generate_recurring_instances P now it (Some s) (Some e) = Inr xs
           \<longrightarrow> (\<forall>x\<in>set xs. \<exists>k d. 0 \<le> k \<and> k < 100
                  \<and> occurrence_after (repeat_interval it) (nat k) od = Some d
                  \<and> dt_key s \<le> dt_key d \<and> x = make_instance it d k))
     \<and> (\<forall>s e d100. occurrence_after (repeat_interval it) 100 od = Some d100
              \<and> dt_key d100 < dt_key s
           \<longrightarrow> generate_recurring_instances P now it (Some s) (Some e) = Inr [])"
proof (intro conjI allI impI ballI)
  fix s e :: datetime and xs x
  assume g: "generate_recurring_instances P now it (Some s) (Some e) = Inr xs" and x: "x \<in> set xs"
  have v: "valid_datetime od" using assms(2) by (rule fromisoformat_valid)
  from g obtain ps where l: "occurrence_loop (repeat_interval it) s e od 0 = Inr ps"
    and xs: "xs = map (\<lambda>(d, k). make_instance it d k) ps"
    by (auto simp: generate_recurring_instances_window [OF assms] split: sum.splits)
  from x xs obtain d k where dk: "(d, k) \<in> set ps" "x = make_instance it d k" by auto
  from occurrence_loop_member [OF l v dk(1)] dk(2)
  show "\<exists>k d. 0 \<le> k \<and> k < 100 \<and> occurrence_after (repeat_interval it) (nat k) od = Some d
          \<and> dt_key s \<le> dt_key d \<and> x = make_instance it d k"
    by (auto simp: max_instances_def)
next
  fix s e d100 :: datetime
  assume a: "occurrence_after (repeat_interval it) 100 od = Some d100 \<and> dt_key d100 < dt_key s"
  have v: "valid_datetime od" using assms(2) by (rule fromisoformat_valid)
  from a have "occurrence_after (repeat_interval it) (nat (max_instances - 0)) od = Some d100"
    by (simp add: max_instances_def)
  from occurrence_loop_steps_defined [OF this]
  obtain ps where l: "occurrence_loop (repeat_interval it) s e od 0 = Inr ps" by blast
  have "ps = []"
  proof (rule ccontr)
    assume "ps \<noteq> []"
    then obtain d k where dk: "(d, k) \<in> set ps" by (cases ps) auto
    from occurrence_loop_member [OF l v dk]
    have k: "0 \<le> k" "k < 100" and af: "occurrence_after (repeat_interval it) (nat k) od = Some d"
      and sd: "dt_key s \<le> dt_key d" and vd: "valid_datetime d"
      by (simp_all add: max_instances_def)
    from k have "(100::nat) = nat k + (100 - nat k)" by simp
    then have "occurrence_after (repeat_interval it) 100 od
        = occurrence_after (repeat_interval it) (100 - nat k) d"
      using occurrence_after_add [of "repeat_interval it" "nat k" "100 - nat k" od] af
      by simp
    with a have "occurrence_after (repeat_interval it) (100 - nat k) d = Some d100" by simp
    from occurrence_after_mono [OF this vd] have "dt_key d \<le> dt_key d100" by simp
    with sd have "dt_key s \<le> dt_key d100" by (rule order_trans)
    moreover from a have "dt_key d100 < dt_key s" by simp
    ultimately show False by simp
  qed
  with l show "generate_recurring_instances P now it (Some s) (Some e) = Inr []"
    by (simp add: generate_recurring_instances_window [OF assms])
qed

theorem cap_counts_steps_before_window_witness:
  "repeat_interval standup_item \<noteq> ''none''
   \<and> fromisoformat utc_platform (due_date standup_item) = Some (at 2025 1 1 9 0)
   \<and> occurrence_after (repeat_interval standup_item) 100 (at 2025 1 1 9 0) = Some (at 2025 4 11 9 0)
   \<and> dt_key (at 2025 4 11 9 0) < dt_key (at 2025 6 1 0 0)
   \<and> generate_recurring_instances utc_platform (at 2025 1 1 0 0) standup_item
        (Some (at 2025 6 1 0 0)) (Some (at 2035 1 1 0 0)) = Inr []"
proof -
  have r: "repeat_interval standup_item \<noteq> ''none''" by simp
  have lt: "dt_key (at 2025 4 11 9 0) < dt_key (at 2025 6 1 0 0)"
    by (simp add: dt_key_def at_def)
  from cap_counts_steps_before_window [OF r parse_standup, of "at 2025 1 1 0 0"]
    standup_after_100 lt
  have "generate_recurring_instances utc_platform (at 2025 1 1 0 0) standup_item
        (Some (at 2025 6 1 0 0)) (Some (at 2035 1 1 0 0)) = Inr []"
    by simp
  with r parse_standup standup_after_100 lt show ?thesis by simp
qed

section \<open>Daily digest\<close>

lemmas parse_defs = fromisoformat_def utc_platform_def basic_iso_fields_def digits_at_def
  digit_val_def valid_datetime_def valid_date_def valid_time_def days_in_month_def is_leap_def

lemma parse_plumber: "fromisoformat utc_platform (due_date plumber_task) = None"
  by (simp add: plumber_task_def db_row_def parse_defs)

lemma parse_passport: "fromisoformat utc_platform (due_date passport_task) = Some (at 2025 10 1 10 0)"
  by (simp add: passport_task_def db_row_def parse_defs at_def)


lemma bucket_loop_filter:
  "bucket_loop P today xs b =
     \<lparr>overdue = overdue b @ filter (\<lambda>i. case fromisoformat P (due_date i) of
                 None \<Rightarrow> False | Some d \<Rightarrow> date_key d < date_key today) xs,
      today_items = today_items b @ filter (\<lambda>i. case fromisoformat P (due_date i) of
                 None \<Rightarrow> False | Some d \<Rightarrow> date_key d = date_key today) xs,
      upcoming = upcoming b @ filter (\<lambda>i. case fromisoformat P (due_date i) of
                 None \<Rightarrow> True
               | Some d \<Rightarrow> date_key today < date_key d \<and> toordinal d - toordinal today \<le> 7) xs\<rparr>"
proof (induction xs arbitrary: b)
  case Nil
  show ?case by simp
next
  case (Cons x xs)
  show ?case
  proof (cases "fromisoformat P (due_date x)")
    case None
    then show ?thesis by (simp add: Cons)
  next
    case (Some d)
    consider (lt) "date_key d < date_key today" | (eq) "date_key d = date_key today"
      | (gt) "date_key today < date_key d" by (rule linorder_cases)
    then show ?thesis
    proof cases
      case lt
      then have "date_key d \<noteq> date_key today" "\<not> date_key today < date_key d" by auto
      with Some lt show ?thesis by (simp add: Cons)
    next
      case eq
      with Some show ?thesis by (simp add: Cons)
    next
      case gt
      then have "\<not> date_key d < date_key today" "date_key d \<noteq> date_key today" by auto
      with Some gt show ?thesis by (simp add: Cons)
    qed
  qed
qed

text \<open>
  C3 (as amended). The bucketing loop fills three lists and has no list for the rest:
  a pending item is appended to \<open>overdue\<close> when its due date is before today, to
  \<open>today_items\<close> when it is today, and to \<open>upcoming\<close> when it is at most 7 days ahead or
  does not parse. The three conditions exclude each other, so no item is in two lists; an
  item due more than 7 days ahead is in none of them.
\<close>

theorem buckets_by_due_date:
  "overdue (bucket_pending P today pending)
     = filter (\<lambda>i. case fromisoformat P (due_date i) of
                 None \<Rightarrow> False | Some d \<Rightarrow> date_key d < date_key today) pending
   \<and> today_items (bucket_pending P today pending)
     = filter (\<lambda>i. case fromisoformat P (due_date i) of
                 None \<Rightarrow> False | Some d \<Rightarrow> date_key d = date_key today) pending
   \<and> upcoming (bucket_pending P today pending)
     = filter (\<lambda>i. case fromisoformat P (due_date i) of
                 None \<Rightarrow> True
               | Some d \<Rightarrow> date_key today < date_key d \<and> toordinal d - toordinal today \<le> 7) pending
   \<and> set (overdue (bucket_pending P today pending))
       \<inter> set (today_items (bucket_pending P today pending)) = {}
   \<and> set (overdue (bucket_pending P today pending))
       \<inter> set (upcoming (bucket_pending P today pending)) = {}
   \<and> set (today_items (bucket_pending P today pending))
       \<inter> set (upcoming (bucket_pending P today pending)) = {}"
  by (auto simp: bucket_pending_def bucket_loop_filter split: option.splits)

text \<open>
  C3 as stated fails: the plumber task's date does not parse and the task is appended to
  \<open>upcoming\<close>; the passport task is due 21 days after today and is appended to no
  list, and there is no fourth list that could hold it.
\<close>

theorem unparseable_upcoming_and_far_dropped_counterexample:
  "fromisoformat utc_platform (due_date plumber_task) = None
   \<and> fromisoformat utc_platform (due_date passport_task) = Some (at 2025 10 1 10 0)
   \<and> bucket_pending utc_platform (at 2025 9 10 8 0) [plumber_task, passport_task]
      = \<lparr>overdue = [], today_items = [], upcoming = [plumber_task]\<rparr>"
  by (simp add: parse_plumber parse_passport bucket_pending_def date_key_def at_def toordinal_def
      days_before_year_def days_before_month_def is_leap_def)

lemma foldl_append_lines: "foldl (\<lambda>text x. text @ line x) acc xs = acc @ concat (map line xs)"
  by (induction xs arbitrary: acc) simp_all

lemma bucket_text_concat:
  "bucket_text line tasks events = concat (map line (take 5 tasks @ take 5 events))"
  by (simp add: bucket_text_def foldl_append_lines)

lemma bucket_field_nonempty_lines:
  assumes "\<And>x. line x \<noteq> []"
  shows "bucket_field title_text line tasks events =
     (if tasks = [] \<and> events = [] then []
      else [\<lparr>field_name = title_text,
             field_value = slice_to 1024 (concat (map line (take 5 tasks @ take 5 events))),
             inline = False\<rparr>])"
proof (cases "tasks = [] \<and> events = []")
  case True
  then show ?thesis by (simp add: bucket_field_def)
next
  case False
  then have "take 5 tasks @ take 5 events \<noteq> []" by auto
  then obtain x xs where "take 5 tasks @ take 5 events = x # xs"
    by (cases "take 5 tasks @ take 5 events") auto
  with assms [of x] have "bucket_text line tasks events \<noteq> []"
    by (simp add: bucket_text_concat)
  with False show ?thesis
    by (auto simp: bucket_field_def Let_def bucket_text_concat)
qed

lemma dated_line_nonempty: "dated_line P red_circle x \<noteq> []" "dated_line P green_circle x \<noteq> []"
  by (simp_all add: dated_line_def red_circle_def green_circle_def)

lemma today_line_nonempty: "today_line x \<noteq> []"
  by (simp add: today_line_def yellow_circle_def)

lemma length_pending_of_type:
  "int (length (pending_of_type ''task'' items)) + int (length (pending_of_type ''event'' items))
     = int (length (filter (\<lambda>i. status i = ''pending''
                          \<and> (item_type i = ''task'' \<or> item_type i = ''event'')) items))"
  by (induction items) (auto simp: pending_of_type_def)

text \<open>
  C8 (as amended). Each urgency bucket of the digest is one field that lists at most the
  first 5 tasks followed by at most the first 5 events of the bucket (so up to 10
  entries), cut to 1024 characters, and nothing else: no note says that more items exist.
  A bucket with no task and no event has no field. The last field is the summary with the
  number of pending items, of overdue items and of items due today.
\<close>

theorem digest_lists_five_tasks_and_five_events:
  fixes P today items
  defines "tasks \<equiv> bucket_pending P today (pending_of_type ''task'' items)"
    and "events \<equiv> bucket_pending P today (pending_of_type ''event'' items)"
  shows "daily_update_fields P today items =
     (if overdue tasks = [] \<and> overdue events = [] then []
      else [\<lparr>field_name = overdue_title,
             field_value = slice_to 1024 (concat (map (dated_line P red_circle)
                             (take 5 (overdue tasks) @ take 5 (overdue events)))),
             inline = False\<rparr>])
     @ (if today_items tasks = [] \<and> today_items events = [] then []
        else [\<lparr>field_name = today_title,
               field_value = slice_to 1024 (concat (map today_line
                               (take 5 (today_items tasks) @ take 5 (today_items events)))),
               inline = False\<rparr>])
     @ (if upcoming tasks = [] \<and> upcoming events = [] then []
        else [\<lparr>field_name = upcoming_title,
               field_value = slice_to 1024 (concat (map (dated_line P green_circle)
                               (take 5 (upcoming tasks) @ take 5 (upcoming events)))),
               inline = False\<rparr>])
     @ [\<lparr>field_name = summary_title,
          field_value = ''Total Pending: ''
            @ str_int (int (length (filter (\<lambda>i. status i = ''pending''
                         \<and> (item_type i = ''task'' \<or> item_type i = ''event'')) items)))
            @ newline @ ''Overdue: ''
            @ str_int (int (length (overdue tasks)) + int (length (overdue events)))
            @ newline @ ''Due Today: ''
            @ str_int (int (length (today_items tasks)) + int (length (today_items events))),
          inline = True\<rparr>]"
  unfolding daily_update_fields_def Let_def tasks_def events_def
  by (simp only: bucket_field_nonempty_lines [OF dated_line_nonempty(1)]
      bucket_field_nonempty_lines [OF dated_line_nonempty(2)]
      bucket_field_nonempty_lines [OF today_line_nonempty] length_pending_of_type)

lemma parse_chore: "fromisoformat utc_platform ''2025-09-01T10:00'' = Some (at 2025 9 1 10 0)"
  by (simp add: parse_defs at_def)

lemma parse_appointment: "fromisoformat utc_platform ''2025-09-02T15:30'' = Some (at 2025 9 2 15 30)"
  by (simp add: parse_defs at_def)

lemma utc_platform_fields:
  "strftime_12h utc_platform = c_strftime_12h" "timestamp utc_platform = utc_timestamp"
  "title utc_platform = ascii_title_from False" "USER_ID_MAP utc_platform = Map.empty"
  by (simp_all add: utc_platform_def)

lemma chore_line:
  "dated_line utc_platform red_circle (db_row n ''task'' ''Chore'' ''2025-09-01T10:00'' ''none'')
     = red_circle @ '' **Chore** (ID: '' @ str_int n @ '') - Due: 2025-09-01 10:00 AM - Priority: Medium''
         @ newline"
  by (simp add: dated_line_def db_row_def format_time_12hour_def parse_chore
      utc_platform_fields c_strftime_12h_def at_def str_int_def str_nat.simps zero_pad_def)

lemma appointment_line:
  "dated_line utc_platform red_circle (db_row n ''event'' ''Appointment'' ''2025-09-02T15:30'' ''none'')
     = red_circle @ '' **Appointment** (ID: '' @ str_int n
         @ '') - Due: 2025-09-02 03:30 PM - Priority: Medium'' @ newline"
  by (simp add: dated_line_def db_row_def format_time_12hour_def parse_appointment
      utc_platform_fields c_strftime_12h_def at_def str_int_def str_nat.simps zero_pad_def)

lemma slice_to_short: "length s \<le> n \<Longrightarrow> slice_to n s = s"
  by (induction s arbitrary: n) (auto split: nat.splits)

lemma six_tasks_overdue:
  "bucket_pending utc_platform (at 2025 9 10 8 0) six_overdue_tasks
     = \<lparr>overdue = six_overdue_tasks, today_items = [], upcoming = []\<rparr>"
  by (simp add: bucket_pending_def six_overdue_tasks_def db_row_def parse_chore date_key_def at_def)

lemma six_events_overdue:
  "bucket_pending utc_platform (at 2025 9 10 8 0) six_overdue_events
     = \<lparr>overdue = six_overdue_events, today_items = [], upcoming = []\<rparr>"
  by (simp add: bucket_pending_def six_overdue_events_def db_row_def parse_appointment date_key_def
      at_def)

lemma five_tasks_overdue:
  "bucket_pending utc_platform (at 2025 9 10 8 0) (take 5 six_overdue_tasks)
     = \<lparr>overdue = take 5 six_overdue_tasks, today_items = [], upcoming = []\<rparr>"
  by (simp add: bucket_pending_def six_overdue_tasks_def db_row_def parse_chore date_key_def at_def)

lemma pending_examples:
  "pending_of_type ''task'' (six_overdue_tasks @ six_overdue_events) = six_overdue_tasks"
  "pending_of_type ''event'' (six_overdue_tasks @ six_overdue_events) = six_overdue_events"
  "pending_of_type ''task'' six_overdue_tasks = six_overdue_tasks"
  "pending_of_type ''event'' six_overdue_tasks = []"
  "pending_of_type ''task'' (take 5 six_overdue_tasks) = take 5 six_overdue_tasks"
  "pending_of_type ''event'' (take 5 six_overdue_tasks) = []"
  by (simp_all add: pending_of_type_def six_overdue_tasks_def six_overdue_events_def db_row_def)


lemma overdue_text_short:
  "length (concat (map (dated_line utc_platform red_circle)
             (take 5 six_overdue_tasks @ take 5 six_overdue_events))) \<le> 1024"
proof -
  have "length red_circle = 4" "length newline = 1"
    by (simp_all add: red_circle_def newline_def)
  then show ?thesis
    by (simp add: six_overdue_tasks_def six_overdue_events_def chore_line appointment_line
        str_int_def str_nat.simps)
qed

text \<open>
  C8 as stated fails: with six overdue tasks and six overdue events the OVERDUE field
  lists ten entries, five tasks and five events; and the field for six overdue tasks is the
  field for the first five of them, so nothing in it tells that a sixth exists.
\<close>

theorem digest_ten_entries_no_overflow_note_counterexample:
  "field_value (hd (daily_update_fields utc_platform (at 2025 9 10 8 0)
                      (six_overdue_tasks @ six_overdue_events)))
     = concat (map (dated_line utc_platform red_circle)
                 (take 5 six_overdue_tasks @ take 5 six_overdue_events))
   \<and> length (take 5 six_overdue_tasks @ take 5 six_overdue_events) = 10
   \<and> hd (daily_update_fields utc_platform (at 2025 9 10 8 0) six_overdue_tasks)
     = hd (daily_update_fields utc_platform (at 2025 9 10 8 0) (take 5 six_overdue_tasks))"
proof (intro conjI)
  have ne: "six_overdue_tasks \<noteq> []" "take 5 six_overdue_tasks \<noteq> []"
    by (simp_all add: six_overdue_tasks_def)
  show "field_value (hd (daily_update_fields utc_platform (at 2025 9 10 8 0)
                      (six_overdue_tasks @ six_overdue_events)))
     = concat (map (dated_line utc_platform red_circle)
                 (take 5 six_overdue_tasks @ take 5 six_overdue_events))"
    using ne slice_to_short [OF overdue_text_short]
    by (simp add: daily_update_fields_def pending_examples six_tasks_overdue six_events_overdue
        bucket_field_nonempty_lines [OF dated_line_nonempty(1)])
  show "length (take 5 six_overdue_tasks @ take 5 six_overdue_events) = 10"
    by (simp add: six_overdue_tasks_def six_overdue_events_def)
  have "bucket_pending utc_platform (at 2025 9 10 8 0) []
        = \<lparr>overdue = [], today_items = [], upcoming = []\<rparr>"
    by (simp add: bucket_pending_def)
  with ne show "hd (daily_update_fields utc_platform (at 2025 9 10 8 0) six_overdue_tasks)
     = hd (daily_update_fields utc_platform (at 2025 9 10 8 0) (take 5 six_overdue_tasks))"
    by (simp add: daily_update_fields_def pending_examples six_tasks_overdue five_tasks_overdue
        bucket_field_nonempty_lines [OF dated_line_nonempty(1)])
qed

section \<open>Reminder scheduling\<close>







lemma parse_meeting: "fromisoformat utc_platform (due_date meeting_item) = Some (at 2025 9 7 14 0)"
  by (simp add: meeting_item_def db_row_def parse_defs at_def)

lemma meeting_reminder_time:
  "minus_timedelta (at 2025 9 7 14 0) (timedelta_minutes 30) = Inr (at 2025 9 7 13 30)"
  by (simp add: timedelta_minutes_30 minus_timedelta_def plus_timedelta_def at_def shift_days_def)

lemma next_day_at:
  "next_day (at y m d h mi) =
     (if d < days_in_month y m then at y m (d + 1) h mi
      else if m < 12 then at y (m + 1) 1 h mi else at (y + 1) 1 1 h mi)"
  by (simp add: next_day_def at_def)

lemma meeting_horizon_date:
  "(next_day ^^ 30) (at 2025 9 7 13 0) = at 2025 10 7 13 0"
  by (simp add: eval_nat_numeral next_day_at days_in_month_def is_leap_def)

lemma meeting_horizon:
  "plus_timedelta (at 2025 9 7 13 0) (timedelta_days 30) = Inr (at 2025 10 7 13 0)"
proof -
  have "year (at 2025 10 7 13 0) = 2025" "hour (at 2025 9 7 13 0) = 13"
    "minute (at 2025 9 7 13 0) = 0" "second (at 2025 9 7 13 0) = 0"
    "at 2025 10 7 13 0\<lparr>hour := 13, minute := 0, second := 0\<rparr> = at 2025 10 7 13 0"
    by (simp_all add: at_def)
  then show ?thesis
    by (simp add: plus_timedelta_def timedelta_days_def shift_days_def meeting_horizon_date)
qed

lemma meeting_timestamp: "utc_timestamp (at 2025 9 7 13 30) = 1757251800"
  by (simp add: utc_timestamp_def toordinal_def days_before_year_def days_before_month_def
      is_leap_def at_def)

lemma meeting_reminder:
  "reminder_for utc_platform (at 2025 9 7 13 0) meeting_item
     = Inr (Some (''reminder_1_1757251800'',
                  \<lparr>trigger = DateTrigger (at 2025 9 7 13 30),
                   func = SendReminder (reminder_message utc_platform meeting_item)\<rparr>))"
proof -
  have "status meeting_item = ''pending''" "due_date meeting_item \<noteq> []"
    "item_id meeting_item = IntId 1"
    by (simp_all add: meeting_item_def db_row_def)
  moreover have "dt_key (at 2025 9 7 13 0) \<le> dt_key (at 2025 9 7 13 30)"
    "dt_key (at 2025 9 7 13 30) \<le> dt_key (at 2025 10 7 13 0)"
    by (simp_all add: dt_key_def at_def)
  moreover have "str_int 1757251800 = ''1757251800''" "str_int 1 = ''1''"
    by (simp_all add: str_int_def str_nat.simps)
  ultimately show ?thesis
    by (simp add: reminder_for_def parse_meeting meeting_reminder_time meeting_horizon
        utc_platform_fields meeting_timestamp)
qed




lemma excluded_item_skipped: "excluded P now i \<Longrightarrow> reminder_for P now i = Inr None"
  by (auto simp: excluded_def outside_window_def reminder_for_def
      split: option.splits sum.splits)

lemma schedule_loop_skips:
  "reminder_for P now i = Inr None \<Longrightarrow>
     schedule_loop P now (before @ i # after) s c = schedule_loop P now (before @ after) s c"
  by (induction before arbitrary: s c) (auto split: sum.splits option.splits)


lemma not_prefix_daily_update: "\<not> prefix ''reminder_'' ''daily_update''"
  by simp

lemma meeting_first_pass:
  "schedule_reminders_and_updates utc_platform [meeting_item] (at 2025 9 7 13 0) new_scheduler
     = (Inr 1, meeting_scheduled)"
proof -
  have "clear_reminder_jobs new_scheduler = new_scheduler"
    by (simp add: clear_reminder_jobs_def new_scheduler_def cong: if_cong)
  then show ?thesis
    by (simp add: schedule_reminders_and_updates_def new_scheduler_def
        meeting_reminder add_job_def meeting_scheduled_def)
qed

lemma parse_year_one:
  "fromisoformat utc_platform (due_date year_one_item) = Some (at 1 1 1 0 10)"
  by (simp add: year_one_item_def db_row_def parse_defs at_def)

lemma year_one_reminder_time:
  "minus_timedelta (at 1 1 1 0 10) (timedelta_minutes 30) = Inl OverflowError"
  by (simp add: timedelta_minutes_30 minus_timedelta_def plus_timedelta_def at_def shift_days_def
      prev_day_def)

lemma year_one_reminder:
  "reminder_for utc_platform (at 2025 9 7 13 0) year_one_item = Inl OverflowError"
proof -
  have "status year_one_item = ''pending''" "due_date year_one_item \<noteq> []"
    by (simp_all add: year_one_item_def db_row_def)
  then show ?thesis
    by (simp add: reminder_for_def parse_year_one year_one_reminder_time)
qed

text \<open>
  C9. The loop contains the errors of parsing, but not the one of the subtraction that
  follows it: for the task due 0001-01-01T00:10 the reminder time would lie before the
  first datetime, \<open>due - timedelta(minutes=30)\<close> raises OverflowError outside the \<open>try\<close>
  block, and the whole pass ends with it. The meeting that follows the task in the batch
  gets no reminder, and the daily update is not scheduled; without the task the same
  pass schedules both.
\<close>

theorem year_one_item_aborts_planning:
  "status year_one_item = ''pending''
   \<and> fromisoformat utc_platform (due_date year_one_item) = Some (at 1 1 1 0 10)
   \<and> minus_timedelta (at 1 1 1 0 10) (timedelta_minutes 30) = Inl OverflowError
   \<and> reminder_for utc_platform (at 2025 9 7 13 0) year_one_item = Inl OverflowError
   \<and> schedule_reminders_and_updates utc_platform [year_one_item, meeting_item]
        (at 2025 9 7 13 0) new_scheduler = (Inl OverflowError, new_scheduler)
   \<and> schedule_reminders_and_updates utc_platform [meeting_item]
        (at 2025 9 7 13 0) new_scheduler = (Inr 1, meeting_scheduled)
   \<and> jobs meeting_scheduled ''reminder_1_1757251800'' \<noteq> None
   \<and> jobs new_scheduler ''reminder_1_1757251800'' = None
   \<and> jobs new_scheduler ''daily_update'' = None"
proof -
  have "clear_reminder_jobs new_scheduler = new_scheduler"
    by (simp add: clear_reminder_jobs_def new_scheduler_def cong: if_cong)
  then have "schedule_reminders_and_updates utc_platform [year_one_item, meeting_item]
        (at 2025 9 7 13 0) new_scheduler = (Inl OverflowError, new_scheduler)"
    by (simp add: schedule_reminders_and_updates_def year_one_reminder)
  moreover have "status year_one_item = ''pending''"
    by (simp add: year_one_item_def db_row_def)
  moreover have "jobs meeting_scheduled ''reminder_1_1757251800'' \<noteq> None"
    "jobs new_scheduler ''reminder_1_1757251800'' = None"
    "jobs new_scheduler ''daily_update'' = None"
    by (simp_all add: meeting_scheduled_def new_scheduler_def)
  ultimately show ?thesis
    by (simp add: parse_year_one year_one_reminder_time year_one_reminder meeting_first_pass)
qed




end
